theory Spec2Isabelle
  imports Main
begin

section \<open>Multi-kernel code generation and run-time dispatch\<close>

text \<open>
  A shallow embedding of \<^verbatim>\<open>multi_kernel.py\<close>. Python exceptions are values of
  \<open>error\<close>; mutable objects are records that the operations return updated; the
  insertion-ordered \<^verbatim>\<open>dict\<close> used for the argument unions is an association list in
  insertion order; the registry \<^verbatim>\<open>dict\<close> and \<^verbatim>\<open>set\<close> are a map and a set.
\<close>

subsection \<open>Exceptions\<close>

text \<open>
  The two \<^verbatim>\<open>assert\<close> statements of the module both raise Python's AssertionError; the
  model keeps them apart by the site that raised them: \<open>InvalidGroupSize\<close> is
  \<^verbatim>\<open>assert len(kernels) >= 2\<close> (both constructors), \<open>DuplicateDispatcherName\<close> is
  \<^verbatim>\<open>assert multi_kernel_name not in self.used_names\<close>. \<open>IndexError\<close> is a tuple or list
  index out of range, \<open>ValueError\<close> is \<^verbatim>\<open>min\<close> of an empty list or \<^verbatim>\<open>index\<close> of a missing
  element, and \<open>Raised s\<close> is any exception \<open>s\<close> coming out of a collaborator that is not
  part of the module (a kernel call, \<^verbatim>\<open>do_bench\<close>, \<^verbatim>\<open>PyCodeCache.load\<close>).
\<close>

datatype error =
    InvalidGroupSize
  | DuplicateDispatcherName
  | IndexError
  | ValueError
  | Raised string

subsection \<open>Kernels as the module reads them\<close>

text \<open>
  The module reads five things of a kernel: \<^verbatim>\<open>kernel_name\<close>, the triple returned by
  \<^verbatim>\<open>args.python_argdefs()\<close>, \<^verbatim>\<open>range_trees\<close> (of each only \<^verbatim>\<open>prefix\<close>),
  \<^verbatim>\<open>inside_reduction\<close> and the list returned by \<^verbatim>\<open>get_call_args()\<close>.
\<close>

record range_tree =
  prefix :: string

record kernel =
  kernel_name :: string
  python_argdefs :: "string list \<times> string list \<times> string list"
  range_trees :: "range_tree list"
  inside_reduction :: bool
  get_call_args :: "string list"

subsection \<open>Insertion-ordered dictionaries\<close>

text \<open>
  A Python \<^verbatim>\<open>dict\<close> keeps its keys in insertion order. Storing under a key that is
  present replaces the value and leaves the key where it is; storing under a new key
  appends.
\<close>

type_synonym ('k, 'v) dict = "('k \<times> 'v) list"

fun dict_setitem :: "('k, 'v) dict \<Rightarrow> 'k \<Rightarrow> 'v \<Rightarrow> ('k, 'v) dict" where
  "dict_setitem [] k v = [(k, v)]"
| "dict_setitem ((k', v') # d) k v =
     (if k' = k then (k', v) # d else (k', v') # dict_setitem d k v)"

text \<open>\<^verbatim>\<open>d.update(other)\<close>: every item of \<open>other\<close>, in its order, is stored into \<open>d\<close>.\<close>

definition dict_update :: "('k, 'v) dict \<Rightarrow> ('k, 'v) dict \<Rightarrow> ('k, 'v) dict" where
  "dict_update d other = fold (\<lambda>(k, v) acc. dict_setitem acc k v) other d"

text \<open>The comprehension \<^verbatim>\<open>{arg: None for arg in args}\<close>.\<close>

definition dict_of_args :: "'k list \<Rightarrow> ('k, unit) dict" where
  "dict_of_args args = fold (\<lambda>arg acc. dict_setitem acc arg ()) args []"

definition dict_keys :: "('k, 'v) dict \<Rightarrow> 'k list" where
  "dict_keys d = map fst d"

subsection \<open>Argument unions\<close>

definition get_kernel_argdefs :: "kernel \<Rightarrow> string list" where
  "get_kernel_argdefs k = (case python_argdefs k of (arg_defs, _, _) \<Rightarrow> arg_defs)"

definition get_all_kernel_argdefs :: "kernel list \<Rightarrow> string list" where
  "get_all_kernel_argdefs kernels =
     (let argdefs_list = map get_kernel_argdefs kernels;
          all_argdefs = fold (\<lambda>argdefs acc. dict_update acc (dict_of_args argdefs))
                          argdefs_list []
      in dict_keys all_argdefs)"

text \<open>
  The loop of \<^verbatim>\<open>get_numel_argdefs\<close>: \<open>numel_argdefs\<close> is the list built so far, and a
  tree's name is appended when its prefix is not \<^verbatim>\<open>"r"\<close> or the kernel is inside a
  reduction.
\<close>

fun numel_argdefs_loop :: "kernel \<Rightarrow> range_tree list \<Rightarrow> string list \<Rightarrow> string list" where
  "numel_argdefs_loop k [] numel_argdefs = numel_argdefs"
| "numel_argdefs_loop k (tree # trees) numel_argdefs =
     numel_argdefs_loop k trees
       (if prefix tree \<noteq> ''r'' \<or> inside_reduction k
        then numel_argdefs @ [prefix tree @ ''numel'']
        else numel_argdefs)"

definition get_numel_argdefs :: "kernel \<Rightarrow> string list" where
  "get_numel_argdefs k = numel_argdefs_loop k (range_trees k) []"

text \<open>
  \<^verbatim>\<open>MultiKernel.call_kernel\<close> builds the union of the kernels' call arguments with the
  same dictionary loop; this is the value of \<^verbatim>\<open>all_call_args\<close> after
  \<^verbatim>\<open>list(all_call_args.keys())\<close>, before the first kernel adds its numels and the
  wrapper emits the call (both outside the module).
\<close>

definition call_kernel_all_call_args :: "kernel list \<Rightarrow> string list" where
  "call_kernel_all_call_args kernels =
     (let call_args_list = map get_call_args kernels;
          all_call_args = fold (\<lambda>call_args acc. dict_update acc (dict_of_args call_args))
                            call_args_list []
      in dict_keys all_call_args)"

text \<open>
  The reference the unions are compared with: every element once, at the place of its
  first occurrence.
\<close>

fun first_occurrences :: "'a list \<Rightarrow> 'a list" where
  "first_occurrences [] = []"
| "first_occurrences (x # xs) = x # removeAll x (first_occurrences xs)"

subsection \<open>The registry: \<^verbatim>\<open>MultiKernelState\<close>\<close>

text \<open>\<^verbatim>\<open>sep.join(xs)\<close>.\<close>

fun join :: "string \<Rightarrow> string list \<Rightarrow> string" where
  "join sep [] = []"
| "join sep [x] = x"
| "join sep (x # y # ys) = x @ sep @ join sep (y # ys)"

record MultiKernelState =
  subkernel_to_kernel_name :: "string list \<rightharpoonup> string"
  used_names :: "string set"

definition MultiKernelState_init :: MultiKernelState where
  "MultiKernelState_init = \<lparr>subkernel_to_kernel_name = Map.empty, used_names = {}\<rparr>"

text \<open>
  The f-string \<open>src_code\<close> of \<^verbatim>\<open>define_kernel\<close>, with its line breaks and indentation.
  Its expressions are evaluated from left to right; \<^verbatim>\<open>kernels[0]\<close> and \<^verbatim>\<open>kernels[1]\<close>
  raise IndexError on a list that is too short.
\<close>

definition define_kernel_src_code :: "kernel list \<Rightarrow> error + string" where
  "define_kernel_src_code kernels =
     (case kernels of
        k0 # k1 # _ \<Rightarrow> Inr (
          ''\<newline>def run(multi_kernel_call, '' @ join '', '' (get_all_kernel_argdefs kernels)
          @ '', '' @ join '', '' (get_numel_argdefs k0) @ '', grid, stream):\<newline>''
          @ ''    def call0():\<newline>''
          @ ''        multi_kernel_call.kernels[0].run('' @ join '', '' (get_kernel_argdefs k0)
          @ '', '' @ join '', '' (get_numel_argdefs k0) @ '', grid=grid, stream=stream)\<newline>''
          @ ''    def call1():\<newline>''
          @ ''        multi_kernel_call.kernels[1].run('' @ join '', '' (get_kernel_argdefs k1)
          @ '', '' @ join '', '' (get_numel_argdefs k1) @ '', grid=grid, stream=stream)\<newline>''
          @ ''    multi_kernel_call.run_with_argless_kernels([call0, call1])\<newline>''
          @ ''        '')
      | _ \<Rightarrow> Inl IndexError)"

text \<open>The text of the first and of the third \<^verbatim>\<open>wrapper.header.splice\<close>.\<close>

definition header_open :: "string \<Rightarrow> string list \<Rightarrow> string" where
  "header_open multi_kernel_name kernel_names =
     ''\<newline>        '' @ multi_kernel_name @ '' = MultiKernelCall([\<newline>''
     @ ''            '' @ join '', '' kernel_names @ '',\<newline>''
     @ ''        ],\<newline>''
     @ ''            '' @ [CHR 0x27, CHR 0x27, CHR 0x27] @ ''\<newline>''
     @ ''        ''"

definition header_close :: string where
  "header_close =
     ''\<newline>            '' @ [CHR 0x27, CHR 0x27, CHR 0x27] @ ''\<newline>''
     @ ''        )\<newline>''
     @ ''        ''"

text \<open>
  \<^verbatim>\<open>define_kernel\<close> on the registry \<open>self\<close> and the wrapper's header, which is the list of
  the texts spliced into it so far (the buffer itself is outside the module). The
  result is the returned name or the exception, with the registry and the header as the
  call leaves them: what was stored before an exception stays stored.
\<close>

definition define_kernel ::
  "MultiKernelState \<Rightarrow> string list \<Rightarrow> kernel list
     \<Rightarrow> (error + string) \<times> MultiKernelState \<times> string list" where
  "define_kernel self hdr kernels =
     (let kernel_names = map kernel_name kernels in
      case subkernel_to_kernel_name self kernel_names of
        Some name \<Rightarrow> (Inr name, self, hdr)
      | None \<Rightarrow>
          (case kernel_names of
             [] \<Rightarrow> (Inl IndexError, self, hdr)
           | first # _ \<Rightarrow>
               (let multi_kernel_name = ''multi_kernel_'' @ first in
                if multi_kernel_name \<in> used_names self
                then (Inl DuplicateDispatcherName, self, hdr)
                else
                  (let self' = self
                         \<lparr>used_names := insert multi_kernel_name (used_names self),
                          subkernel_to_kernel_name :=
                            (subkernel_to_kernel_name self)(kernel_names \<mapsto> multi_kernel_name)\<rparr>
                   in case define_kernel_src_code kernels of
                        Inl e \<Rightarrow> (Inl e, self', hdr)
                      | Inr src_code \<Rightarrow>
                          (Inr multi_kernel_name, self',
                           hdr @ [header_open multi_kernel_name kernel_names,
                                  src_code, header_close])))))"

text \<open>
  A sequence of \<^verbatim>\<open>define_kernel\<close> calls on one registry. Each call starts from the
  state the previous one left, also when that one raised (a caller may catch the
  exception and go on); the outcomes are returned in order.
\<close>

fun define_kernels ::
  "MultiKernelState \<Rightarrow> string list \<Rightarrow> kernel list list
     \<Rightarrow> (error + string) list \<times> MultiKernelState \<times> string list" where
  "define_kernels self hdr [] = ([], self, hdr)"
| "define_kernels self hdr (kernels # rest) =
     (case define_kernel self hdr kernels of
        (r, self', hdr') \<Rightarrow>
          (case define_kernels self' hdr' rest of
             (rs, self'', hdr'') \<Rightarrow> (r # rs, self'', hdr'')))"

subsection \<open>The compile-time handle: \<^verbatim>\<open>MultiKernel\<close>\<close>

text \<open>
  \<^verbatim>\<open>V.graph.wrapper_code\<close>, as far as the module uses it: its \<^verbatim>\<open>multi_kernel_state\<close>
  and its \<^verbatim>\<open>header\<close>.
\<close>

record wrapper_code =
  multi_kernel_state :: MultiKernelState
  header :: "string list"

record MultiKernel =
  kernels :: "kernel list"
  multi_kernel_name :: string

definition MultiKernel_init ::
  "wrapper_code \<Rightarrow> kernel list \<Rightarrow> (error + MultiKernel) \<times> wrapper_code" where
  "MultiKernel_init wrapper ks =
     (if \<not> 2 \<le> length ks then (Inl InvalidGroupSize, wrapper)
      else
        (case define_kernel (multi_kernel_state wrapper) (header wrapper) ks of
           (Inl e, st, hdr) \<Rightarrow>
             (Inl e, wrapper\<lparr>multi_kernel_state := st, header := hdr\<rparr>)
         | (Inr name, st, hdr) \<Rightarrow>
             (Inr \<lparr>kernels = ks, multi_kernel_name = name\<rparr>,
              wrapper\<lparr>multi_kernel_state := st, header := hdr\<rparr>)))"

subsection \<open>The run-time object: \<^verbatim>\<open>MultiKernelCall\<close>\<close>

text \<open>
  The object holds the kernels it was given, \<open>picked_kernel\<close> (\<open>None\<close> until a kernel is
  picked) and the \<^verbatim>\<open>run\<close> function of the loaded glue source. \<^verbatim>\<open>PyCodeCache.load\<close> is
  outside the module and is a parameter: it returns the loaded \<^verbatim>\<open>run\<close> or the
  exception it raised.
\<close>

record ('k, 'r) MultiKernelCall =
  kernels_of_call :: "'k list"
  picked_kernel :: "nat option"
  run_of_call :: 'r

definition MultiKernelCall_init ::
  "(string \<Rightarrow> string + 'r) \<Rightarrow> 'k list \<Rightarrow> string \<Rightarrow> error + ('k, 'r) MultiKernelCall" where
  "MultiKernelCall_init load ks src_code =
     (if \<not> 2 \<le> length ks then Inl InvalidGroupSize
      else
        (case load src_code of
           Inl s \<Rightarrow> Inl (Raised s)
         | Inr run \<Rightarrow>
             Inr \<lparr>kernels_of_call = ks, picked_kernel = None, run_of_call = run\<rparr>))"

text \<open>
  A kernel call is a closure without arguments: run in a world \<open>'w\<close> (the device, the
  buffers), it returns or raises, and leaves a world. \<^verbatim>\<open>do_bench\<close> is outside the module
  and is a parameter: given the closure, \<^verbatim>\<open>rep\<close> and \<^verbatim>\<open>fast_flush\<close>, it returns a
  duration or raises. Durations are compared as Python compares floats that are numbers,
  a linear order.
\<close>

type_synonym 'w kernel_call = "'w \<Rightarrow> (string + unit) \<times> 'w"

type_synonym ('w, 't) bench = "'w kernel_call \<Rightarrow> nat \<Rightarrow> bool \<Rightarrow> 'w \<Rightarrow> (string + 't) \<times> 'w"

text \<open>
  What \<^verbatim>\<open>run_with_argless_kernels\<close> did, in order: \<open>Do_bench i rep fast_flush\<close> is a call of
  \<^verbatim>\<open>do_bench\<close> on \<^verbatim>\<open>kernel_calls[i]\<close>, \<open>Call i\<close> is the invocation \<^verbatim>\<open>kernel_calls[i]()\<close>.
\<close>

datatype event = Do_bench nat nat bool | Call nat

text \<open>The events that are invocations of a closure by \<^verbatim>\<open>run_with_argless_kernels\<close> itself.\<close>

fun is_call :: "event \<Rightarrow> bool" where
  "is_call (Call i) = True"
| "is_call (Do_bench i rep fast_flush) = False"

text \<open>
  The list comprehension \<^verbatim>\<open>[do_bench(kernel_call, rep=40, fast_flush=True) for ...]\<close>, from
  position \<open>i\<close> on: the first exception ends it.
\<close>

fun timings_loop ::
  "('w, 't) bench \<Rightarrow> 'w kernel_call list \<Rightarrow> nat \<Rightarrow> 'w \<Rightarrow> (error + 't list) \<times> event list \<times> 'w" where
  "timings_loop do_bench [] i w = (Inr [], [], w)"
| "timings_loop do_bench (kernel_call # rest) i w =
     (case do_bench kernel_call 40 True w of
        (Inl s, w') \<Rightarrow> (Inl (Raised s), [Do_bench i 40 True], w')
      | (Inr t, w') \<Rightarrow>
          (case timings_loop do_bench rest (Suc i) w' of
             (Inl e, tr, w'') \<Rightarrow> (Inl e, Do_bench i 40 True # tr, w'')
           | (Inr ts, tr, w'') \<Rightarrow> (Inr (t # ts), Do_bench i 40 True # tr, w'')))"

text \<open>
  \<^verbatim>\<open>min(xs)\<close> keeps the first of the smallest elements and raises ValueError on an empty
  list; \<^verbatim>\<open>xs.index(v)\<close> is the first position holding \<open>v\<close>, or ValueError.
\<close>

fun py_min :: "('t::linorder) list \<Rightarrow> error + 't" where
  "py_min [] = Inl ValueError"
| "py_min (x # xs) = Inr (fold (\<lambda>y m. if y < m then y else m) xs x)"

fun py_index :: "'a list \<Rightarrow> 'a \<Rightarrow> error + nat" where
  "py_index [] v = Inl ValueError"
| "py_index (x # xs) v =
     (if x = v then Inr 0
      else (case py_index xs v of Inl e \<Rightarrow> Inl e | Inr i \<Rightarrow> Inr (Suc i)))"

text \<open>
  The last statement, \<^verbatim>\<open>kernel_calls[self.picked_kernel]()\<close>, where \<open>i\<close> is the value of
  \<^verbatim>\<open>self.picked_kernel\<close> and \<open>tr\<close> the events so far.
\<close>

definition call_picked ::
  "nat \<Rightarrow> ('k, 'r) MultiKernelCall \<Rightarrow> 'w kernel_call list \<Rightarrow> event list \<Rightarrow> 'w
     \<Rightarrow> (error + unit) \<times> ('k, 'r) MultiKernelCall \<times> event list \<times> 'w" where
  "call_picked i self kernel_calls tr w =
     (if i < length kernel_calls
      then (case (kernel_calls ! i) w of
              (Inl s, w') \<Rightarrow> (Inl (Raised s), self, tr @ [Call i], w')
            | (Inr u, w') \<Rightarrow> (Inr (), self, tr @ [Call i], w'))
      else (Inl IndexError, self, tr, w))"

text \<open>
  \<^verbatim>\<open>run_with_argless_kernels\<close>: the result or the exception, the object as the call leaves
  it, the events and the world.
\<close>

definition run_with_argless_kernels ::
  "('w, 't::linorder) bench \<Rightarrow> ('k, 'r) MultiKernelCall \<Rightarrow> 'w kernel_call list \<Rightarrow> 'w
     \<Rightarrow> (error + unit) \<times> ('k, 'r) MultiKernelCall \<times> event list \<times> 'w" where
  "run_with_argless_kernels do_bench self kernel_calls w =
     (case picked_kernel self of
        None \<Rightarrow>
          (case timings_loop do_bench kernel_calls 0 w of
             (Inl e, tr, w') \<Rightarrow> (Inl e, self, tr, w')
           | (Inr timings, tr, w') \<Rightarrow>
               (case py_min timings of
                  Inl e \<Rightarrow> (Inl e, self, tr, w')
                | Inr m \<Rightarrow>
                    (case py_index timings m of
                       Inl e \<Rightarrow> (Inl e, self, tr, w')
                     | Inr i \<Rightarrow>
                         call_picked i (self\<lparr>picked_kernel := Some i\<rparr>) kernel_calls tr w')))
      | Some i \<Rightarrow> call_picked i self kernel_calls [] w)"

text \<open>
  A sequence of invocations on one object, each with its own list of closures: every
  invocation starts from the object and the world the previous one left, also when that
  one raised. The events of each invocation are returned in order.
\<close>

fun run_sequence ::
  "('w, 't::linorder) bench \<Rightarrow> ('k, 'r) MultiKernelCall \<Rightarrow> 'w kernel_call list list \<Rightarrow> 'w
     \<Rightarrow> ((error + unit) \<times> event list) list \<times> ('k, 'r) MultiKernelCall \<times> 'w" where
  "run_sequence do_bench self [] w = ([], self, w)"
| "run_sequence do_bench self (kernel_calls # rest) w =
     (case run_with_argless_kernels do_bench self kernel_calls w of
        (r, self', tr, w') \<Rightarrow>
          (case run_sequence do_bench self' rest w' of
             (rs, self'', w'') \<Rightarrow> ((r, tr) # rs, self'', w'')))"

subsection \<open>Example kernels\<close>

text \<open>
  Three reductions that share their iteration space and differ in their arguments, and a
  kernel with a reduction tree that is not inside the reduction.
\<close>

definition kernel_a :: kernel where
  "kernel_a = \<lparr>kernel_name = ''k1'',
     python_argdefs = ([''in_ptr0'', ''out_ptr0''], [''arg0_1'', ''buf0''], []),
     range_trees = [\<lparr>prefix = ''x''\<rparr>, \<lparr>prefix = ''r''\<rparr>],
     inside_reduction = True,
     get_call_args = [''arg0_1'', ''buf0'']\<rparr>"

definition kernel_b :: kernel where
  "kernel_b = \<lparr>kernel_name = ''k2'',
     python_argdefs = ([''in_ptr0'', ''in_ptr1'', ''out_ptr0''], [''arg0_1'', ''arg1_1'', ''buf0''], []),
     range_trees = [\<lparr>prefix = ''x''\<rparr>, \<lparr>prefix = ''r''\<rparr>],
     inside_reduction = True,
     get_call_args = [''arg0_1'', ''arg1_1'', ''buf0'']\<rparr>"

definition kernel_c :: kernel where
  "kernel_c = \<lparr>kernel_name = ''k3'',
     python_argdefs = ([''in_ptr0'', ''out_ptr0'', ''ws''], [''arg0_1'', ''buf0'', ''buf1''], []),
     range_trees = [\<lparr>prefix = ''x''\<rparr>, \<lparr>prefix = ''r''\<rparr>],
     inside_reduction = True,
     get_call_args = [''arg0_1'', ''buf0'', ''buf1'']\<rparr>"

definition kernel_outside :: kernel where
  "kernel_outside = \<lparr>kernel_name = ''k4'',
     python_argdefs = ([''in_ptr0'', ''out_ptr0''], [''arg0_1'', ''buf0''], []),
     range_trees = [\<lparr>prefix = ''x''\<rparr>, \<lparr>prefix = ''y''\<rparr>, \<lparr>prefix = ''r''\<rparr>],
     inside_reduction = False,
     get_call_args = [''arg0_1'', ''buf0'']\<rparr>"

subsection \<open>Example closures\<close>

text \<open>
  The world of the examples is a clock. \<open>busy n\<close> is a closure that takes \<open>n\<close> ticks,
  \<open>broken s\<close> one that raises \<open>s\<close>; \<open>clock_bench\<close> runs the closure once and returns the
  ticks it took, or the exception it raised; \<open>fresh_call\<close> is an object as the
  constructor leaves it.
\<close>

definition busy :: "nat \<Rightarrow> nat kernel_call" where
  "busy n = (\<lambda>w. (Inr (), w + n))"

definition broken :: "string \<Rightarrow> nat kernel_call" where
  "broken s = (\<lambda>w. (Inl s, w))"

definition clock_bench :: "(nat, nat) bench" where
  "clock_bench kernel_call rep fast_flush w =
     (case kernel_call w of
        (Inl s, w') \<Rightarrow> (Inl s, w')
      | (Inr u, w') \<Rightarrow> (Inr (w' - w), w'))"

definition fresh_call :: "(string, unit) MultiKernelCall" where
  "fresh_call = \<lparr>kernels_of_call = [''k1'', ''k2''], picked_kernel = None, run_of_call = ()\<rparr>"

subsection \<open>Consistency of the registry\<close>

text \<open>
  What \<^verbatim>\<open>define_kernel\<close> keeps true of a registry: every registered tuple is non-empty
  and is mapped to the name made from its first kernel name, and every used name is the
  name of a registered tuple.
\<close>

definition registry_consistent :: "MultiKernelState \<Rightarrow> bool" where
  "registry_consistent st \<longleftrightarrow>
     (\<forall>key name. subkernel_to_kernel_name st key = Some name
        \<longrightarrow> key \<noteq> [] \<and> name = ''multi_kernel_'' @ hd key)
     \<and> (\<forall>name \<in> used_names st. \<exists>key. subkernel_to_kernel_name st key = Some name)"

subsection \<open>The glue source, closure by closure\<close>

text \<open>\<^verbatim>\<open>str(n)\<close> for a natural number: its decimal digits.\<close>

fun str_nat :: "nat \<Rightarrow> string" where
  "str_nat n = (if n < 10 then [''0123456789'' ! n]
                else str_nat (n div 10) @ [''0123456789'' ! (n mod 10)])"

declare str_nat.simps [simp del]

text \<open>
  The text of one closure of the glue: \<^verbatim>\<open>call<i>\<close> runs \<^verbatim>\<open>kernels[i]\<close> on the given argument
  names and size names, with the grid and the stream.
\<close>

definition closure_source :: "nat \<Rightarrow> string list \<Rightarrow> string list \<Rightarrow> string" where
  "closure_source i args numels =
     ''    def call'' @ str_nat i @ ''():\<newline>''
     @ ''        multi_kernel_call.kernels['' @ str_nat i @ ''].run('' @ join '', '' args
     @ '', '' @ join '', '' numels @ '', grid=grid, stream=stream)\<newline>''"

text \<open>
  A glue source with the given parameters of \<^verbatim>\<open>run\<close> and one closure for each entry of
  \<open>closures\<close> (the argument names and the size names it passes), numbered from 0, all of
  them handed to \<^verbatim>\<open>run_with_argless_kernels\<close> in order.
\<close>

definition glue_source ::
  "string list \<Rightarrow> string list \<Rightarrow> (string list \<times> string list) list \<Rightarrow> string" where
  "glue_source all_args numels closures =
     ''\<newline>def run(multi_kernel_call, '' @ join '', '' all_args
     @ '', '' @ join '', '' numels @ '', grid, stream):\<newline>''
     @ concat (map (\<lambda>(i, args, closure_numels). closure_source i args closure_numels)
                 (zip [0 ..< length closures] closures))
     @ ''    multi_kernel_call.run_with_argless_kernels([''
     @ join '', '' (map (\<lambda>i. ''call'' @ str_nat i) [0 ..< length closures])
     @ ''])\<newline>''
     @ ''        ''"

text \<open>
  The glue source as the interface describes it: one closure for each kernel of the
  group, invoking that kernel with its own arguments and the shared iteration sizes,
  those of the first kernel.
\<close>

definition glue_per_variant :: "kernel list \<Rightarrow> string" where
  "glue_per_variant ks =
     glue_source (get_all_kernel_argdefs ks) (get_numel_argdefs (hd ks))
       (map (\<lambda>k. (get_kernel_argdefs k, get_numel_argdefs (hd ks))) ks)"

text \<open>The number of places of a text at which a pattern occurs.\<close>

fun starts_with :: "'a list \<Rightarrow> 'a list \<Rightarrow> bool" where
  "starts_with [] text = True"
| "starts_with (p # pattern) [] = False"
| "starts_with (p # pattern) (c # text) = (p = c \<and> starts_with pattern text)"

fun count_occurrences :: "'a list \<Rightarrow> 'a list \<Rightarrow> nat" where
  "count_occurrences pattern [] = (if pattern = [] then 1 else 0)"
| "count_occurrences pattern (c # text) =
     (if starts_with pattern (c # text) then 1 else 0) + count_occurrences pattern text"

section \<open>Properties\<close>

subsection \<open>Argument unions\<close>

lemma keys_setitem:
  "dict_keys (dict_setitem d k v) = (if k \<in> set (dict_keys d) then dict_keys d else dict_keys d @ [k])"
  unfolding dict_keys_def by (induction d) (auto simp: rev_image_eqI)

lemma filter_first_occurrences:
  "filter P (first_occurrences xs) = first_occurrences (filter P xs)"
proof (induction xs)
  case Nil
  show ?case by simp
next
  case (Cons a xs)
  have comm: "filter P (removeAll a (first_occurrences xs)) = removeAll a (filter P (first_occurrences xs))"
    by (simp add: removeAll_filter_not_eq conj_commute)
  show ?case
  proof (cases "P a")
    case True
    then show ?thesis using Cons.IH comm by simp
  next
    case False
    have "filter P (removeAll a (first_occurrences xs)) = filter P (first_occurrences xs)"
      unfolding removeAll_filter_not_eq filter_filter
      by (rule filter_cong) (use False in auto)
    then show ?thesis using False Cons.IH by simp
  qed
qed

lemma removeAll_first_occurrences:
  "removeAll x (first_occurrences xs) = first_occurrences (removeAll x xs)"
  by (simp add: removeAll_filter_not_eq filter_first_occurrences)

lemma set_first_occurrences: "set (first_occurrences xs) = set xs"
  by (induction xs) auto

lemma distinct_first_occurrences: "distinct (first_occurrences xs)"
  by (induction xs) (auto simp: distinct_removeAll)

lemma first_occurrences_distinct: "distinct xs \<Longrightarrow> first_occurrences xs = xs"
  by (induction xs) auto

lemma keys_fold_setitem:
  "dict_keys (fold (\<lambda>arg acc. dict_setitem acc arg (f arg)) args d)
     = dict_keys d @ first_occurrences (filter (\<lambda>a. a \<notin> set (dict_keys d)) args)"
proof (induction args arbitrary: d)
  case Nil
  show ?case by simp
next
  case (Cons a args)
  show ?case
  proof (cases "a \<in> set (dict_keys d)")
    case True
    then show ?thesis by (simp add: Cons.IH keys_setitem)
  next
    case False
    have "filter (\<lambda>b. b \<notin> set (dict_keys d @ [a])) args
            = removeAll a (filter (\<lambda>b. b \<notin> set (dict_keys d)) args)"
      by (auto simp: removeAll_filter_not_eq intro!: filter_cong)
    then show ?thesis
      using False by (simp add: Cons.IH keys_setitem removeAll_first_occurrences)
  qed
qed

lemma first_occurrences_append:
  "first_occurrences (xs @ ys) = first_occurrences xs @ first_occurrences (filter (\<lambda>y. y \<notin> set xs) ys)"
proof (induction xs)
  case Nil
  show ?case by simp
next
  case (Cons a xs)
  have "removeAll a (first_occurrences (filter (\<lambda>y. y \<notin> set xs) ys))
          = first_occurrences (filter (\<lambda>y. y \<notin> set (a # xs)) ys)"
    unfolding removeAll_first_occurrences
    by (rule arg_cong [where f = first_occurrences])
       (auto simp: removeAll_filter_not_eq intro!: filter_cong)
  then show ?case by (simp add: Cons.IH)
qed


lemma keys_fold_pairs:
  "dict_keys (fold (\<lambda>(k, v) acc. dict_setitem acc k v) ps d)
     = dict_keys d @ first_occurrences (filter (\<lambda>a. a \<notin> set (dict_keys d)) (map fst ps))"
proof (induction ps arbitrary: d)
  case Nil
  show ?case by simp
next
  case (Cons p ps)
  obtain a v where p: "p = (a, v)" by (cases p)
  show ?case
  proof (cases "a \<in> set (dict_keys d)")
    case True
    then show ?thesis by (simp add: p Cons.IH keys_setitem)
  next
    case False
    have "filter (\<lambda>b. b \<notin> set (dict_keys d @ [a])) (map fst ps)
            = removeAll a (filter (\<lambda>b. b \<notin> set (dict_keys d)) (map fst ps))"
      by (auto simp: removeAll_filter_not_eq intro!: filter_cong)
    then show ?thesis
      using False by (simp add: p Cons.IH keys_setitem removeAll_first_occurrences)
  qed
qed

lemma keys_dict_of_args: "dict_keys (dict_of_args args) = first_occurrences args"
  unfolding dict_of_args_def
  using keys_fold_setitem [of "\<lambda>_. ()" args "[]"] by (simp add: dict_keys_def)

lemma keys_dict_update_args:
  "dict_keys (dict_update d (dict_of_args args))
     = dict_keys d @ first_occurrences (filter (\<lambda>a. a \<notin> set (dict_keys d)) args)"
proof -
  have "dict_keys (dict_update d (dict_of_args args))
          = dict_keys d @ first_occurrences
              (filter (\<lambda>a. a \<notin> set (dict_keys d)) (dict_keys (dict_of_args args)))"
    unfolding dict_update_def keys_fold_pairs by (simp add: dict_keys_def)
  also have "filter (\<lambda>a. a \<notin> set (dict_keys d)) (dict_keys (dict_of_args args))
          = first_occurrences (filter (\<lambda>a. a \<notin> set (dict_keys d)) args)"
    by (simp add: keys_dict_of_args filter_first_occurrences)
  finally show ?thesis
    by (simp add: first_occurrences_distinct distinct_first_occurrences)
qed

lemma keys_union_loop:
  "dict_keys (fold (\<lambda>args acc. dict_update acc (dict_of_args args)) ls d)
     = dict_keys d @ first_occurrences (filter (\<lambda>a. a \<notin> set (dict_keys d)) (concat ls))"
proof (induction ls arbitrary: d)
  case Nil
  show ?case by simp
next
  case (Cons l ls)
  let ?P = "\<lambda>a. a \<notin> set (dict_keys d)"
  let ?d' = "dict_update d (dict_of_args l)"
  have keys': "dict_keys ?d' = dict_keys d @ first_occurrences (filter ?P l)"
    by (rule keys_dict_update_args)
  have "filter (\<lambda>a. a \<notin> set (dict_keys ?d')) (concat ls)
          = filter (\<lambda>y. y \<notin> set (filter ?P l)) (filter ?P (concat ls))"
    unfolding keys' by (auto simp: set_first_occurrences intro!: filter_cong)
  then show ?case
    by (simp add: Cons.IH keys' first_occurrences_append)
qed

lemma get_all_kernel_argdefs_eq:
  "get_all_kernel_argdefs ks = first_occurrences (concat (map get_kernel_argdefs ks))"
  unfolding get_all_kernel_argdefs_def Let_def keys_union_loop by (simp add: dict_keys_def)

lemma call_kernel_all_call_args_eq:
  "call_kernel_all_call_args ks = first_occurrences (concat (map get_call_args ks))"
  unfolding call_kernel_all_call_args_def Let_def keys_union_loop by (simp add: dict_keys_def)

lemma first_occurrences_absorb:
  "set ys \<subseteq> set xs \<Longrightarrow> first_occurrences (xs @ ys) = first_occurrences xs"
proof -
  assume "set ys \<subseteq> set xs"
  then have "filter (\<lambda>y. y \<notin> set xs) ys = []" by (auto simp: filter_empty_conv)
  then show ?thesis by (simp add: first_occurrences_append)
qed

text \<open>
  Claim C6. For every list of kernels, the union of argument names computed by
  \<^verbatim>\<open>get_all_kernel_argdefs\<close>, and the union of call arguments computed in
  \<^verbatim>\<open>call_kernel\<close>, has no duplicates and holds each name of the kernels' lists, taken in
  order, at the place of its first occurrence. Appending kernels that are already in
  the list changes nothing; in particular the union of \<open>A, B, A\<close> is the union of
  \<open>A, B\<close>.
\<close>

theorem argument_union:
  "distinct (get_all_kernel_argdefs ks)
   \<and> get_all_kernel_argdefs ks = first_occurrences (concat (map get_kernel_argdefs ks))
   \<and> get_all_kernel_argdefs [A, B, A] = get_all_kernel_argdefs [A, B]
   \<and> (set ks' \<subseteq> set ks \<longrightarrow> get_all_kernel_argdefs (ks @ ks') = get_all_kernel_argdefs ks)
   \<and> distinct (call_kernel_all_call_args ks)
   \<and> call_kernel_all_call_args ks = first_occurrences (concat (map get_call_args ks))
   \<and> call_kernel_all_call_args [A, B, A] = call_kernel_all_call_args [A, B]
   \<and> (set ks' \<subseteq> set ks \<longrightarrow> call_kernel_all_call_args (ks @ ks') = call_kernel_all_call_args ks)"
proof -
  have absorb: "first_occurrences (concat (map f (xs @ ys))) = first_occurrences (concat (map f xs))"
    if "set ys \<subseteq> set xs" for f :: "kernel \<Rightarrow> string list" and xs ys
  proof -
    have "set (concat (map f ys)) \<subseteq> set (concat (map f xs))" using that by auto
    then show ?thesis by (simp add: first_occurrences_absorb)
  qed
  have aba: "first_occurrences (concat (map f [A, B, A])) = first_occurrences (concat (map f [A, B]))"
    for f :: "kernel \<Rightarrow> string list"
    using absorb [of "[A]" "[A, B]" f] by simp
  show ?thesis
    unfolding get_all_kernel_argdefs_eq call_kernel_all_call_args_eq
    using absorb aba by (simp add: distinct_first_occurrences)
qed

theorem argument_union_witness:
  "set [kernel_a] \<subseteq> set [kernel_a, kernel_b]
   \<and> get_all_kernel_argdefs [kernel_a, kernel_b] = [''in_ptr0'', ''out_ptr0'', ''in_ptr1'']
   \<and> get_all_kernel_argdefs ([kernel_a, kernel_b] @ [kernel_a])
       = [''in_ptr0'', ''out_ptr0'', ''in_ptr1'']
   \<and> call_kernel_all_call_args ([kernel_a, kernel_b] @ [kernel_a])
       = [''arg0_1'', ''buf0'', ''arg1_1'']"
  using argument_union [of "[kernel_a, kernel_b]" kernel_a kernel_b "[kernel_a]"]
  by (simp add: kernel_a_def kernel_b_def get_kernel_argdefs_def)

subsection \<open>Iteration sizes\<close>

lemma numel_argdefs_loop_eq:
  "numel_argdefs_loop k trees acc
     = acc @ map (\<lambda>t. prefix t @ ''numel'')
               (filter (\<lambda>t. prefix t \<noteq> ''r'' \<or> inside_reduction k) trees)"
  by (induction trees arbitrary: acc) auto

text \<open>
  Claim C7. For every kernel, \<^verbatim>\<open>get_numel_argdefs\<close> returns, in the order of the kernel's
  range trees, the name \<open>prefix @ ''numel''\<close> of every tree whose prefix is not \<^verbatim>\<open>"r"\<close>,
  and of a tree with prefix \<^verbatim>\<open>"r"\<close> exactly when the kernel is inside a reduction.
\<close>

theorem numel_argdefs_rule:
  "get_numel_argdefs k
     = map (\<lambda>t. prefix t @ ''numel'')
         (filter (\<lambda>t. prefix t \<noteq> ''r'' \<or> inside_reduction k) (range_trees k))
   \<and> (inside_reduction k \<longrightarrow>
        get_numel_argdefs k = map (\<lambda>t. prefix t @ ''numel'') (range_trees k))
   \<and> (\<not> inside_reduction k \<longrightarrow>
        get_numel_argdefs k
          = map (\<lambda>t. prefix t @ ''numel'') (filter (\<lambda>t. prefix t \<noteq> ''r'') (range_trees k)))
   \<and> (''rnumel'' \<in> set (get_numel_argdefs k)
        \<longleftrightarrow> (\<exists>t \<in> set (range_trees k). prefix t = ''r'') \<and> inside_reduction k)
   \<and> (\<forall>t \<in> set (range_trees k). prefix t \<noteq> ''r''
        \<longrightarrow> prefix t @ ''numel'' \<in> set (get_numel_argdefs k))"
  unfolding get_numel_argdefs_def numel_argdefs_loop_eq by (auto simp: image_iff)

theorem numel_argdefs_rule_witness:
  "\<not> inside_reduction kernel_outside
   \<and> ''rnumel'' \<notin> set (get_numel_argdefs kernel_outside)
   \<and> get_numel_argdefs kernel_outside = [''xnumel'', ''ynumel'']
   \<and> inside_reduction kernel_a
   \<and> get_numel_argdefs kernel_a = [''xnumel'', ''rnumel'']"
  using numel_argdefs_rule [of kernel_outside] numel_argdefs_rule [of kernel_a]
  by (simp add: kernel_outside_def kernel_a_def)

subsection \<open>Selection and dispatch at run time\<close>

lemma fold_min_eq: "fold (\<lambda>y m. if y < m then y else m) xs (x::'t::linorder) = Min (insert x (set xs))"
proof (induction xs arbitrary: x)
  case Nil
  show ?case by simp
next
  case (Cons y ys)
  have "Min (insert (if y < x then y else x) (set ys)) = Min (insert x (insert y (set ys)))"
  proof (cases "set ys = {}")
    case True
    then show ?thesis by (auto simp: min_def)
  next
    case False
    then show ?thesis by (auto simp: min_def)
  qed
  then show ?case by (simp add: Cons.IH)
qed

lemma py_min_eq: "xs \<noteq> [] \<Longrightarrow> py_min xs = Inr (Min (set xs))"
  by (cases xs) (simp_all add: fold_min_eq)

lemma py_index_first:
  "v \<in> set xs \<Longrightarrow>
     \<exists>i. py_index xs v = Inr i \<and> i < length xs \<and> xs ! i = v \<and> (\<forall>j < i. xs ! j \<noteq> v)"
proof (induction xs)
  case Nil
  then show ?case by simp
next
  case (Cons x xs)
  show ?case
  proof (cases "x = v")
    case True
    then show ?thesis by simp
  next
    case False
    with Cons obtain i where i: "py_index xs v = Inr i" "i < length xs" "xs ! i = v"
      "\<forall>j < i. xs ! j \<noteq> v" by auto
    have "\<forall>j < Suc i. (x # xs) ! j \<noteq> v"
      using False i(4) by (auto simp: nth_Cons split: nat.splits)
    with False i show ?thesis by simp
  qed
qed

lemma timings_loop_ok:
  "timings_loop do_bench kernel_calls i w = (Inr ts, tr, w') \<Longrightarrow>
     length ts = length kernel_calls
     \<and> tr = map (\<lambda>j. Do_bench j 40 True) [i ..< i + length kernel_calls]"
proof (induction kernel_calls arbitrary: i w ts tr)
  case Nil
  then show ?case by simp
next
  case (Cons c cs)
  from Cons.prems obtain t w1 where b: "do_bench c 40 True w = (Inr t, w1)"
    by (auto split: prod.splits sum.splits)
  with Cons.prems obtain ts' tr' where r: "timings_loop do_bench cs (Suc i) w1 = (Inr ts', tr', w')"
    and ts: "ts = t # ts'" and tr: "tr = Do_bench i 40 True # tr'"
    by (auto split: prod.splits sum.splits)
  from Cons.IH [OF r] show ?case
    by (simp add: ts tr upt_conv_Cons del: upt_Suc)
qed

lemma timings_loop_raise:
  "timings_loop do_bench xs i w = (Inr ts, tr1, w1) \<Longrightarrow>
   do_bench c 40 True w1 = (Inl s, w2) \<Longrightarrow>
     timings_loop do_bench (xs @ c # ys) i w
       = (Inl (Raised s), map (\<lambda>j. Do_bench j 40 True) [i ..< Suc (i + length xs)], w2)"
proof (induction xs arbitrary: i w ts tr1)
  case Nil
  then show ?case by simp
next
  case (Cons x xs)
  from Cons.prems(1) obtain t w0 where b: "do_bench x 40 True w = (Inr t, w0)"
    by (auto split: prod.splits sum.splits)
  with Cons.prems(1) obtain ts' tr' where r: "timings_loop do_bench xs (Suc i) w0 = (Inr ts', tr', w1)"
    by (auto split: prod.splits sum.splits)
  from Cons.IH [OF r Cons.prems(2)] b show ?case
    by (simp add: upt_conv_Cons del: upt_Suc)
qed

lemma call_picked_valid:
  "i < length kernel_calls \<Longrightarrow>
     \<exists>r w'. call_picked i self kernel_calls tr w = (r, self, tr @ [Call i], w')
       \<and> r \<noteq> Inl IndexError
       \<and> (\<exists>s. (kernel_calls ! i) w = (s, w')
             \<and> r = (case s of Inl x \<Rightarrow> Inl (Raised x) | Inr u \<Rightarrow> Inr ()))"
  unfolding call_picked_def by (auto split: prod.splits sum.splits)

lemma run_decided:
  "picked_kernel self = Some i \<Longrightarrow>
     run_with_argless_kernels do_bench self kernel_calls w = call_picked i self kernel_calls [] w"
  unfolding run_with_argless_kernels_def by simp

lemma run_undecided:
  assumes "picked_kernel self = None" and "kernel_calls \<noteq> []"
    and "timings_loop do_bench kernel_calls 0 w = (Inr timings, tr, w')"
  shows "\<exists>i. run_with_argless_kernels do_bench self kernel_calls w
            = call_picked i (self\<lparr>picked_kernel := Some i\<rparr>) kernel_calls
                (map (\<lambda>j. Do_bench j 40 True) [0 ..< length kernel_calls]) w'
          \<and> length timings = length kernel_calls \<and> i < length timings
          \<and> timings ! i = Min (set timings) \<and> (\<forall>j < i. timings ! i < timings ! j)"
proof -
  from timings_loop_ok [OF assms(3)]
  have len: "length timings = length kernel_calls"
    and tr: "tr = map (\<lambda>j. Do_bench j 40 True) [0 ..< length kernel_calls]" by simp_all
  from len assms(2) have ne: "timings \<noteq> []" by auto
  then have mn: "py_min timings = Inr (Min (set timings))" by (rule py_min_eq)
  from ne have "Min (set timings) \<in> set timings" by simp
  from py_index_first [OF this] obtain i where i: "py_index timings (Min (set timings)) = Inr i"
    "i < length timings" "timings ! i = Min (set timings)"
    "\<forall>j < i. timings ! j \<noteq> Min (set timings)" by blast
  have "timings ! i < timings ! j" if "j < i" for j
  proof -
    from that i(2) have "timings ! j \<in> set timings" by simp
    then have le: "timings ! i \<le> timings ! j" unfolding i(3) by simp
    from i(4) that have "timings ! j \<noteq> timings ! i" unfolding i(3) by blast
    with le show ?thesis by simp
  qed
  with i len tr mn assms(1,3) show ?thesis
    unfolding run_with_argless_kernels_def by auto
qed

lemmas example_call_defs =
  run_with_argless_kernels_def call_picked_def clock_bench_def busy_def broken_def fresh_call_def

text \<open>
  Claim C3. On an invocation of \<^verbatim>\<open>run_with_argless_kernels\<close> with \<open>picked_kernel\<close> unset
  and a non-empty list of closures whose benchmarks all return, every closure is
  benchmarked once, in the order of the list, with \<^verbatim>\<open>rep=40\<close> and \<^verbatim>\<open>fast_flush=True\<close>;
  \<open>picked_kernel\<close> becomes the first position that holds the smallest duration (every
  earlier position holds a strictly larger one), which is position 0 when all durations
  are equal; the closure at that position is then invoked.
\<close>

theorem selection_algorithm:
  assumes "picked_kernel self = None" and "kernel_calls \<noteq> []"
    and "timings_loop do_bench kernel_calls 0 w = (Inr timings, tr, w')"
  shows "\<exists>i r w''. run_with_argless_kernels do_bench self kernel_calls w
            = (r, self\<lparr>picked_kernel := Some i\<rparr>,
               map (\<lambda>j. Do_bench j 40 True) [0 ..< length kernel_calls] @ [Call i], w'')
          \<and> length timings = length kernel_calls \<and> i < length timings
          \<and> timings ! i = Min (set timings) \<and> (\<forall>j < i. timings ! i < timings ! j)
          \<and> ((\<forall>j < length timings. timings ! j = timings ! 0) \<longrightarrow> i = 0)"
proof -
  from run_undecided [OF assms] obtain i where
    run: "run_with_argless_kernels do_bench self kernel_calls w
            = call_picked i (self\<lparr>picked_kernel := Some i\<rparr>) kernel_calls
                (map (\<lambda>j. Do_bench j 40 True) [0 ..< length kernel_calls]) w'"
    and len: "length timings = length kernel_calls" and i: "i < length timings"
    and mn: "timings ! i = Min (set timings)" and first: "\<forall>j < i. timings ! i < timings ! j"
    by blast
  from i len have "i < length kernel_calls" by simp
  from call_picked_valid [OF this] obtain r w'' where
    "call_picked i (self\<lparr>picked_kernel := Some i\<rparr>) kernel_calls
       (map (\<lambda>j. Do_bench j 40 True) [0 ..< length kernel_calls]) w'
     = (r, self\<lparr>picked_kernel := Some i\<rparr>,
        map (\<lambda>j. Do_bench j 40 True) [0 ..< length kernel_calls] @ [Call i], w'')"
    by blast
  moreover have "i = 0" if eq: "\<forall>j < length timings. timings ! j = timings ! 0"
  proof (rule ccontr)
    assume "i \<noteq> 0"
    then have "0 < i" by simp
    with first have "timings ! i < timings ! 0" by simp
    with eq i show False by simp
  qed
  ultimately show ?thesis using run len i mn first by auto
qed

theorem selection_algorithm_witness:
  "picked_kernel fresh_call = None
   \<and> timings_loop clock_bench [busy 5, busy 3, busy 3] 0 0
       = (Inr [5, 3, 3], [Do_bench 0 40 True, Do_bench 1 40 True, Do_bench 2 40 True], 11)
   \<and> run_with_argless_kernels clock_bench fresh_call [busy 5, busy 3, busy 3] 0
       = (Inr (), fresh_call\<lparr>picked_kernel := Some 1\<rparr>,
          [Do_bench 0 40 True, Do_bench 1 40 True, Do_bench 2 40 True, Call 1], 14)"
proof -
  have h1: "picked_kernel fresh_call = None" by (simp add: fresh_call_def)
  have h2: "[busy 5, busy 3, busy 3] \<noteq> []" by simp
  have h3: "timings_loop clock_bench [busy 5, busy 3, busy 3] 0 0
       = (Inr [5, 3, 3], [Do_bench 0 40 True, Do_bench 1 40 True, Do_bench 2 40 True], 11)"
    by (simp add: clock_bench_def busy_def)
  from selection_algorithm [OF h1 h2 h3] obtain i r w'' where
    run: "run_with_argless_kernels clock_bench fresh_call [busy 5, busy 3, busy 3] 0
            = (r, fresh_call\<lparr>picked_kernel := Some i\<rparr>,
               map (\<lambda>j. Do_bench j 40 True) [0 ..< length [busy 5, busy 3, busy 3]] @ [Call i], w'')"
    by blast
  have val: "run_with_argless_kernels clock_bench fresh_call [busy 5, busy 3, busy 3] 0
       = (Inr (), fresh_call\<lparr>picked_kernel := Some 1\<rparr>,
          [Do_bench 0 40 True, Do_bench 1 40 True, Do_bench 2 40 True, Call 1], 14)"
    by (simp add: example_call_defs)
  from run val have "r = Inr () \<and> i = 1 \<and> w'' = 14" by simp
  with run h1 h3 show ?thesis by simp
qed

text \<open>
  Claim C9. If, with \<open>picked_kernel\<close> unset, the benchmark of the closure at position \<open>j\<close>
  raises after the closures before it were benchmarked, the exception is the result of
  \<^verbatim>\<open>run_with_argless_kernels\<close>: no later closure is benchmarked, no closure is invoked,
  and the object is returned unchanged, with \<open>picked_kernel\<close> still unset.
\<close>

theorem benchmark_failure_atomic:
  assumes "picked_kernel self = None" and "j < length kernel_calls"
    and "timings_loop do_bench (take j kernel_calls) 0 w = (Inr ts, tr1, w1)"
    and "do_bench (kernel_calls ! j) 40 True w1 = (Inl s, w2)"
  shows "run_with_argless_kernels do_bench self kernel_calls w
           = (Inl (Raised s), self, map (\<lambda>k. Do_bench k 40 True) [0 ..< Suc j], w2)
         \<and> picked_kernel (fst (snd (run_with_argless_kernels do_bench self kernel_calls w))) = None"
proof -
  have split: "kernel_calls = take j kernel_calls @ kernel_calls ! j # drop (Suc j) kernel_calls"
    using assms(2) by (simp add: id_take_nth_drop)
  have "timings_loop do_bench (take j kernel_calls @ kernel_calls ! j # drop (Suc j) kernel_calls) 0 w
          = (Inl (Raised s), map (\<lambda>k. Do_bench k 40 True) [0 ..< Suc (0 + length (take j kernel_calls))], w2)"
    by (rule timings_loop_raise [OF assms(3,4)])
  with split assms(2) have "timings_loop do_bench kernel_calls 0 w
          = (Inl (Raised s), map (\<lambda>k. Do_bench k 40 True) [0 ..< Suc j], w2)"
    by (simp add: min_def)
  with assms(1) show ?thesis unfolding run_with_argless_kernels_def by simp
qed

theorem benchmark_failure_atomic_witness:
  "picked_kernel fresh_call = None
   \<and> timings_loop clock_bench (take 1 [busy 4, broken ''boom'', busy 1]) 0 0
       = (Inr [4], [Do_bench 0 40 True], 4)
   \<and> clock_bench ([busy 4, broken ''boom'', busy 1] ! 1) 40 True 4 = (Inl ''boom'', 4)
   \<and> run_with_argless_kernels clock_bench fresh_call [busy 4, broken ''boom'', busy 1] 0
       = (Inl (Raised ''boom''), fresh_call, [Do_bench 0 40 True, Do_bench 1 40 True], 4)"
proof -
  have h1: "picked_kernel fresh_call = None" by (simp add: fresh_call_def)
  have h2: "1 < length [busy 4, broken ''boom'', busy 1]" by simp
  have h3: "timings_loop clock_bench (take 1 [busy 4, broken ''boom'', busy 1]) 0 0
       = (Inr [4], [Do_bench 0 40 True], 4)"
    by (simp add: clock_bench_def busy_def)
  have h4: "clock_bench ([busy 4, broken ''boom'', busy 1] ! 1) 40 True 4 = (Inl ''boom'', 4)"
    by (simp add: clock_bench_def broken_def)
  have tr: "map (\<lambda>k. Do_bench k 40 True) [0 ..< Suc 1] = [Do_bench 0 40 True, Do_bench 1 40 True]"
    by simp
  have "run_with_argless_kernels clock_bench fresh_call [busy 4, broken ''boom'', busy 1] 0
          = (Inl (Raised ''boom''), fresh_call, map (\<lambda>k. Do_bench k 40 True) [0 ..< Suc 1], 4)"
    using benchmark_failure_atomic [of fresh_call 1 "[busy 4, broken ''boom'', busy 1]" clock_bench 0
        "[4]" "[Do_bench 0 40 True]" 4 "''boom''" 4, OF h1 h2 h3 h4]
    by (rule conjunct1)
  then have run: "run_with_argless_kernels clock_bench fresh_call [busy 4, broken ''boom'', busy 1] 0
       = (Inl (Raised ''boom''), fresh_call, [Do_bench 0 40 True, Do_bench 1 40 True], 4)"
    unfolding tr .
  show ?thesis using h1 h3 h4 run by blast
qed

text \<open>
  Claim C1. Once \<open>picked_kernel\<close> holds an index \<open>i\<close>, every later invocation of
  \<^verbatim>\<open>run_with_argless_kernels\<close> on the object, whatever closures it is given, leaves the
  object as it is, calls \<^verbatim>\<open>do_bench\<close> not once (its events and results do not depend on
  \<^verbatim>\<open>do_bench\<close> at all), and invokes the closure at index \<open>i\<close> of its list and no other (a
  list without an index \<open>i\<close> has nothing to invoke).
\<close>

theorem selection_permanence:
  fixes do_bench :: "('w, 't::linorder) bench"
  assumes "picked_kernel self = Some i"
    and "run_sequence do_bench self seq w = (rs, self', w')"
  shows "self' = self \<and> picked_kernel self' = Some i
         \<and> map snd rs = map (\<lambda>kernel_calls. if i < length kernel_calls then [Call i] else []) seq
         \<and> (\<forall>(r, tr) \<in> set rs. \<forall>j rep fast_flush. Do_bench j rep fast_flush \<notin> set tr)
         \<and> (\<forall>other_bench :: ('w, 't) bench.
               run_sequence other_bench self seq w = (rs, self', w'))"
  using assms
proof (induction seq arbitrary: w rs)
  case Nil
  then show ?case by simp
next
  case (Cons kernel_calls seq)
  have "\<exists>r w1. call_picked i self kernel_calls [] w
          = (r, self, if i < length kernel_calls then [Call i] else [], w1)"
    unfolding call_picked_def by (cases "i < length kernel_calls") (auto split: prod.splits sum.splits)
  then obtain r tr w1 where step: "call_picked i self kernel_calls [] w = (r, self, tr, w1)"
    and tr: "tr = (if i < length kernel_calls then [Call i] else [])"
    by blast
  have run1: "run_with_argless_kernels b self kernel_calls w = (r, self, tr, w1)" for b :: "('w, 't) bench"
    using run_decided [OF Cons.prems(1), of b kernel_calls w] step by simp
  obtain rs' where rest: "run_sequence do_bench self seq w1 = (rs', self', w')"
    and rs: "rs = (r, tr) # rs'"
    using Cons.prems(2) run1 by (auto split: prod.splits)
  from Cons.IH [OF Cons.prems(1) rest] run1 rs tr show ?case by auto
qed

theorem selection_permanence_witness:
  "run_with_argless_kernels clock_bench fresh_call [busy 5, busy 3, busy 3] 0
     = (Inr (), fresh_call\<lparr>picked_kernel := Some 1\<rparr>,
        [Do_bench 0 40 True, Do_bench 1 40 True, Do_bench 2 40 True, Call 1], 14)
   \<and> picked_kernel (fresh_call\<lparr>picked_kernel := Some 1\<rparr>) = Some 1
   \<and> run_sequence clock_bench (fresh_call\<lparr>picked_kernel := Some 1\<rparr>)
        [[busy 9, busy 9, busy 1], [busy 1, busy 7]] 14
       = ([(Inr (), [Call 1]), (Inr (), [Call 1])], fresh_call\<lparr>picked_kernel := Some 1\<rparr>, 30)
   \<and> map snd [(Inr () :: error + unit, [Call 1]), (Inr (), [Call 1])] = [[Call 1], [Call 1]]"
proof -
  let ?self = "fresh_call\<lparr>picked_kernel := Some 1\<rparr>"
  let ?seq = "[[busy 9, busy 9, busy 1], [busy 1, busy 7]]"
  let ?rs = "[(Inr () :: error + unit, [Call 1]), (Inr (), [Call 1])]"
  have h1: "picked_kernel ?self = Some 1" by simp
  have h2: "run_sequence clock_bench ?self ?seq 14 = (?rs, ?self, 30)"
    by (simp add: example_call_defs)
  have h3: "run_with_argless_kernels clock_bench fresh_call [busy 5, busy 3, busy 3] 0
     = (Inr (), ?self,
        [Do_bench 0 40 True, Do_bench 1 40 True, Do_bench 2 40 True, Call 1], 14)"
    by (simp add: example_call_defs)
  have "map snd ?rs = map (\<lambda>kernel_calls. if 1 < length kernel_calls then [Call 1] else []) ?seq"
    using selection_permanence [of ?self 1 clock_bench ?seq 14 ?rs ?self 30, OF h1 h2] by blast
  then have "map snd ?rs = [[Call 1], [Call 1]]" by simp
  with h1 h2 h3 show ?thesis by blast
qed

text \<open>
  Claim C10. An invocation of \<^verbatim>\<open>run_with_argless_kernels\<close> on a non-empty list that leaves
  \<open>picked_kernel\<close> set (every invocation whose benchmarking pass does not raise), on an
  object that is undecided or was decided by a list of the same length, ends by
  invoking exactly one closure, the one at index \<open>picked_kernel\<close>; that index is within
  the list, and within every later list of the same length.
\<close>

theorem run_invokes_picked:
  fixes do_bench :: "('w, 't::linorder) bench"
  assumes "kernel_calls \<noteq> []"
    and "run_with_argless_kernels do_bench self kernel_calls w = (r, self', tr, w')"
    and "picked_kernel self' = Some i"
    and "\<forall>k. picked_kernel self = Some k \<longrightarrow> k < length kernel_calls"
  shows "i < length kernel_calls \<and> filter is_call tr = [Call i] \<and> last tr = Call i
         \<and> (\<exists>w0 s. (kernel_calls ! i) w0 = (s, w')
               \<and> r = (case s of Inl x \<Rightarrow> Inl (Raised x) | Inr u \<Rightarrow> Inr ()))
         \<and> (\<forall>later_calls (other_bench :: ('w, 't) bench) w2. length later_calls = length kernel_calls \<longrightarrow>
               (\<exists>r2 w3. run_with_argless_kernels other_bench self' later_calls w2
                          = (r2, self', [Call i], w3) \<and> r2 \<noteq> Inl IndexError))"
proof -
  have later: "\<exists>r2 w3. run_with_argless_kernels other_bench self' later_calls w2
                          = (r2, self', [Call i], w3) \<and> r2 \<noteq> Inl IndexError"
    if "i < length kernel_calls" "length later_calls = length kernel_calls"
    for later_calls and other_bench :: "('w, 't) bench" and w2
  proof -
    from that have "i < length later_calls" by simp
    from call_picked_valid [OF this, of self' "[]" w2] obtain r2 w3 where
      "call_picked i self' later_calls [] w2 = (r2, self', [Call i], w3)" "r2 \<noteq> Inl IndexError"
      by auto
    then show ?thesis
      unfolding run_decided [OF assms(3)] by blast
  qed
  have bench_tr: "filter is_call (map (\<lambda>j. Do_bench j 40 True) xs) = []" for xs
    by (induction xs) auto
  show ?thesis
  proof (cases "picked_kernel self")
    case (Some k)
    with assms(4) have k: "k < length kernel_calls" by simp
    from call_picked_valid [OF k, of self "[]" w] obtain r0 w1 s0 where
      cp: "call_picked k self kernel_calls [] w = (r0, self, [] @ [Call k], w1)"
      and inv: "(kernel_calls ! k) w = (s0, w1)"
        "r0 = (case s0 of Inl x \<Rightarrow> Inl (Raised x) | Inr u \<Rightarrow> Inr ())"
      by blast
    from cp run_decided [OF Some, of do_bench kernel_calls w] assms(2)
    have eqs: "r = r0" "self' = self" "tr = [Call k]" "w' = w1" by simp_all
    from eqs(2) assms(3) Some have ik: "i = k" by simp
    have "i = k \<and> tr = [Call i] \<and> (\<exists>w0 s. (kernel_calls ! i) w0 = (s, w')
               \<and> r = (case s of Inl x \<Rightarrow> Inl (Raised x) | Inr u \<Rightarrow> Inr ()))"
      using inv eqs ik by blast
    with k later show ?thesis by auto
  next
    case None
    show ?thesis
    proof (cases "timings_loop do_bench kernel_calls 0 w")
      case (fields res tr0 w0)
      show ?thesis
      proof (cases res)
        case (Inl e)
        with fields None assms(2,3) show ?thesis
          unfolding run_with_argless_kernels_def by simp
      next
        case (Inr timings)
        from run_undecided [OF None assms(1) fields [unfolded Inr]] obtain i' where
          run: "run_with_argless_kernels do_bench self kernel_calls w
                  = call_picked i' (self\<lparr>picked_kernel := Some i'\<rparr>) kernel_calls
                      (map (\<lambda>j. Do_bench j 40 True) [0 ..< length kernel_calls]) w0"
          and i': "i' < length kernel_calls" by auto
        let ?tr0 = "map (\<lambda>j. Do_bench j 40 True) [0 ..< length kernel_calls]"
        from call_picked_valid [OF i', of "self\<lparr>picked_kernel := Some i'\<rparr>" ?tr0 w0]
        obtain r0 w1 s0 where
          cp: "call_picked i' (self\<lparr>picked_kernel := Some i'\<rparr>) kernel_calls ?tr0 w0
                 = (r0, self\<lparr>picked_kernel := Some i'\<rparr>, ?tr0 @ [Call i'], w1)"
          and inv: "(kernel_calls ! i') w0 = (s0, w1)"
            "r0 = (case s0 of Inl x \<Rightarrow> Inl (Raised x) | Inr u \<Rightarrow> Inr ())"
          by blast
        from cp run assms(2)
        have eqs: "r = r0" "self' = self\<lparr>picked_kernel := Some i'\<rparr>" "tr = ?tr0 @ [Call i']" "w' = w1"
          by simp_all
        from eqs(2) assms(3) have ik: "i = i'" by simp
        have "i = i' \<and> tr = ?tr0 @ [Call i]
              \<and> (\<exists>w0 s. (kernel_calls ! i) w0 = (s, w')
               \<and> r = (case s of Inl x \<Rightarrow> Inl (Raised x) | Inr u \<Rightarrow> Inr ()))"
          using inv eqs ik by blast
        with i' later show ?thesis by (auto simp: bench_tr)
      qed
    qed
  qed
qed

theorem run_invokes_picked_witness:
  "[busy 4, busy 4] \<noteq> []
   \<and> run_with_argless_kernels clock_bench fresh_call [busy 4, busy 4] 0
       = (Inr (), fresh_call\<lparr>picked_kernel := Some 0\<rparr>,
          [Do_bench 0 40 True, Do_bench 1 40 True, Call 0], 12)
   \<and> picked_kernel (fresh_call\<lparr>picked_kernel := Some 0\<rparr>) = Some 0
   \<and> picked_kernel fresh_call = None
   \<and> 0 < length [busy 4, busy 4]
   \<and> filter is_call [Do_bench 0 40 True, Do_bench 1 40 True, Call 0] = [Call 0]
   \<and> last [Do_bench 0 40 True, Do_bench 1 40 True, Call 0] = Call 0"
proof -
  let ?self' = "fresh_call\<lparr>picked_kernel := Some 0\<rparr>"
  let ?tr = "[Do_bench 0 40 True, Do_bench 1 40 True, Call 0]"
  have h1: "[busy 4, busy 4] \<noteq> []" by simp
  have h2: "run_with_argless_kernels clock_bench fresh_call [busy 4, busy 4] 0
       = (Inr (), ?self', ?tr, 12)"
    by (simp add: example_call_defs)
  have h3: "picked_kernel ?self' = Some 0" by simp
  have h0: "picked_kernel fresh_call = None" by (simp add: fresh_call_def)
  then have h4: "\<forall>k. picked_kernel fresh_call = Some k \<longrightarrow> k < length [busy 4, busy 4]"
    by simp
  have "0 < length [busy 4, busy 4] \<and> filter is_call ?tr = [Call 0] \<and> last ?tr = Call 0"
    using run_invokes_picked [of "[busy 4, busy 4]" clock_bench fresh_call 0 "Inr ()" ?self' ?tr 12 0,
        OF h1 h2 h3 h4] by blast
  with h1 h2 h3 h0 show ?thesis by blast
qed

subsection \<open>Registration\<close>

lemma src_code_short: "length ks < 2 \<Longrightarrow> define_kernel_src_code ks = Inl IndexError"
  unfolding define_kernel_src_code_def by (auto split: list.splits)

lemma src_code_long: "2 \<le> length ks \<Longrightarrow> \<exists>src. define_kernel_src_code ks = Inr src"
  unfolding define_kernel_src_code_def by (auto split: list.splits)

lemma define_kernel_registered:
  "subkernel_to_kernel_name self (map kernel_name ks) = Some name \<Longrightarrow>
     define_kernel self hdr ks = (Inr name, self, hdr)"
  unfolding define_kernel_def by simp

lemma define_kernel_empty:
  "subkernel_to_kernel_name self [] = None \<Longrightarrow> define_kernel self hdr [] = (Inl IndexError, self, hdr)"
  unfolding define_kernel_def by simp

lemma define_kernel_collision:
  assumes "subkernel_to_kernel_name self (map kernel_name ks) = None" and "ks \<noteq> []"
    and "''multi_kernel_'' @ kernel_name (hd ks) \<in> used_names self"
  shows "define_kernel self hdr ks = (Inl DuplicateDispatcherName, self, hdr)"
  using assms unfolding define_kernel_def by (cases ks) (simp_all add: Let_def)

lemma define_kernel_new:
  assumes "subkernel_to_kernel_name self (map kernel_name ks) = None" and "ks \<noteq> []"
    and "''multi_kernel_'' @ kernel_name (hd ks) \<notin> used_names self"
  shows "define_kernel self hdr ks =
           (case define_kernel_src_code ks of
              Inl e \<Rightarrow> Inl e
            | Inr src_code \<Rightarrow> Inr (''multi_kernel_'' @ kernel_name (hd ks)),
            self\<lparr>used_names := insert (''multi_kernel_'' @ kernel_name (hd ks)) (used_names self),
                 subkernel_to_kernel_name := (subkernel_to_kernel_name self)
                   (map kernel_name ks \<mapsto> ''multi_kernel_'' @ kernel_name (hd ks))\<rparr>,
            case define_kernel_src_code ks of
              Inl e \<Rightarrow> hdr
            | Inr src_code \<Rightarrow>
                hdr @ [header_open (''multi_kernel_'' @ kernel_name (hd ks)) (map kernel_name ks),
                       src_code, header_close])"
  using assms unfolding define_kernel_def by (cases ks) (simp_all add: Let_def split: sum.splits)

lemma registry_consistent_init: "registry_consistent MultiKernelState_init"
  unfolding registry_consistent_def MultiKernelState_init_def by simp

lemma define_kernel_step:
  assumes inv: "registry_consistent st"
    and dom: "dom (subkernel_to_kernel_name st) \<subseteq> T"
    and key: "map kernel_name ks \<in> T"
    and inj: "\<forall>a \<in> T. \<forall>b \<in> T. a \<noteq> [] \<and> b \<noteq> [] \<and> hd a = hd b \<longrightarrow> a = b"
    and run: "define_kernel st hdr ks = (r, st', hdr')"
  shows "r \<noteq> Inl DuplicateDispatcherName \<and> registry_consistent st'
         \<and> dom (subkernel_to_kernel_name st') \<subseteq> T
         \<and> (2 \<le> length ks \<longrightarrow> r = Inr (''multi_kernel_'' @ kernel_name (hd ks)))"
proof (cases "subkernel_to_kernel_name st (map kernel_name ks)")
  case (Some name)
  from define_kernel_registered [OF Some] run
  have 1: "r = Inr name" "st' = st" "hdr' = hdr" by simp_all
  from inv Some have "map kernel_name ks \<noteq> [] \<and> name = ''multi_kernel_'' @ hd (map kernel_name ks)"
    unfolding registry_consistent_def by blast
  then have "name = ''multi_kernel_'' @ kernel_name (hd ks)" by (simp add: hd_map)
  with 1 inv dom show ?thesis by simp
next
  case None
  show ?thesis
  proof (cases "ks = []")
    case True
    from define_kernel_empty [of st hdr] None True run
    have "r = Inl IndexError" "st' = st" by simp_all
    with inv dom True show ?thesis by simp
  next
    case False
    let ?name = "''multi_kernel_'' @ kernel_name (hd ks)"
    have unused: "?name \<notin> used_names st"
    proof
      assume "?name \<in> used_names st"
      with inv obtain key' where k': "subkernel_to_kernel_name st key' = Some ?name"
        unfolding registry_consistent_def by blast
      with inv have "key' \<noteq> []" "?name = ''multi_kernel_'' @ hd key'"
        unfolding registry_consistent_def by blast+
      then have hd: "hd key' = hd (map kernel_name ks)" using False by (simp add: hd_map)
      from k' dom have "key' \<in> T" by blast
      with inj key hd \<open>key' \<noteq> []\<close> False have "key' = map kernel_name ks" by simp
      with k' None show False by simp
    qed
    let ?st' = "st\<lparr>used_names := insert ?name (used_names st),
                 subkernel_to_kernel_name := (subkernel_to_kernel_name st)
                   (map kernel_name ks \<mapsto> ?name)\<rparr>"
    from define_kernel_new [OF None False unused, of hdr] run
    have r: "r = (case define_kernel_src_code ks of Inl e \<Rightarrow> Inl e | Inr s \<Rightarrow> Inr ?name)"
      and st': "st' = ?st'" by simp_all
    have "r \<noteq> Inl DuplicateDispatcherName"
    proof (cases "2 \<le> length ks")
      case True
      from src_code_long [OF this] r show ?thesis by auto
    next
      case short: False
      then have "length ks < 2" by simp
      from src_code_short [OF this] r show ?thesis by simp
    qed
    moreover have "registry_consistent ?st'"
      unfolding registry_consistent_def
    proof (rule conjI; intro allI impI ballI)
      fix key name assume "subkernel_to_kernel_name ?st' key = Some name"
      then have "(key = map kernel_name ks \<and> name = ?name)
                 \<or> subkernel_to_kernel_name st key = Some name"
        by (simp split: if_splits)
      then show "key \<noteq> [] \<and> name = ''multi_kernel_'' @ hd key"
      proof
        assume "key = map kernel_name ks \<and> name = ?name"
        with False show ?thesis by (simp add: hd_map)
      next
        assume "subkernel_to_kernel_name st key = Some name"
        with inv show ?thesis unfolding registry_consistent_def by blast
      qed
    next
      fix name assume "name \<in> used_names ?st'"
      then have "name = ?name \<or> name \<in> used_names st" by simp
      then show "\<exists>key. subkernel_to_kernel_name ?st' key = Some name"
      proof
        assume "name = ?name"
        then have "subkernel_to_kernel_name ?st' (map kernel_name ks) = Some name" by simp
        then show ?thesis ..
      next
        assume "name \<in> used_names st"
        with inv obtain key where k: "subkernel_to_kernel_name st key = Some name"
          unfolding registry_consistent_def by blast
        with None have "key \<noteq> map kernel_name ks" by auto
        with k have "subkernel_to_kernel_name ?st' key = Some name" by simp
        then show ?thesis ..
      qed
    qed
    moreover have "dom (subkernel_to_kernel_name ?st') \<subseteq> T" using dom key by auto
    moreover have "r = Inr ?name" if "2 \<le> length ks"
      using src_code_long [OF that] r by auto
    ultimately show ?thesis unfolding st' by blast
  qed
qed

lemma define_kernels_no_collision:
  assumes inj: "\<forall>a \<in> T. \<forall>b \<in> T. a \<noteq> [] \<and> b \<noteq> [] \<and> hd a = hd b \<longrightarrow> a = b"
  shows "registry_consistent st \<Longrightarrow> dom (subkernel_to_kernel_name st) \<subseteq> T \<Longrightarrow>
         map kernel_name ` set seq \<subseteq> T \<Longrightarrow>
         Inl DuplicateDispatcherName \<notin> set (fst (define_kernels st hdr seq))
         \<and> length (fst (define_kernels st hdr seq)) = length seq
         \<and> (\<forall>i < length seq. 2 \<le> length (seq ! i) \<longrightarrow>
               fst (define_kernels st hdr seq) ! i
                 = Inr (''multi_kernel_'' @ kernel_name (hd (seq ! i))))"
proof (induction seq arbitrary: st hdr)
  case Nil
  show ?case by simp
next
  case (Cons ks seq)
  obtain r st' hdr' where run: "define_kernel st hdr ks = (r, st', hdr')"
    by (cases "define_kernel st hdr ks") auto
  from Cons.prems(3) have key: "map kernel_name ks \<in> T" and rest: "map kernel_name ` set seq \<subseteq> T"
    by auto
  from define_kernel_step [OF Cons.prems(1,2) key inj run]
  have step: "r \<noteq> Inl DuplicateDispatcherName" "registry_consistent st'"
    "dom (subkernel_to_kernel_name st') \<subseteq> T"
    "2 \<le> length ks \<longrightarrow> r = Inr (''multi_kernel_'' @ kernel_name (hd ks))" by simp_all
  note IH = Cons.IH [OF step(2,3) rest, of hdr']
  have eq: "fst (define_kernels st hdr (ks # seq)) = r # fst (define_kernels st' hdr' seq)"
    using run by (simp split: prod.splits)
  let ?rs = "fst (define_kernels st' hdr' seq)"
  have nth: "(r # ?rs) ! i = Inr (''multi_kernel_'' @ kernel_name (hd ((ks # seq) ! i)))"
    if "i < length (ks # seq)" "2 \<le> length ((ks # seq) ! i)" for i
  proof (cases i)
    case 0
    with that step(4) show ?thesis by simp
  next
    case (Suc i')
    with that IH show ?thesis by simp
  qed
  from step(1) IH have "Inl DuplicateDispatcherName \<notin> set (r # ?rs)" by simp
  moreover from IH have "length (r # ?rs) = length (ks # seq)" by simp
  ultimately show ?case unfolding eq using nth by blast
qed

lemma define_kernel_outcome:
  assumes "2 \<le> length ks"
  shows "\<exists>r st hdr'. define_kernel self hdr ks = (r, st, hdr')
           \<and> r \<noteq> Inl InvalidGroupSize \<and> r \<noteq> Inl IndexError
           \<and> (\<forall>name. r = Inr name \<longrightarrow> subkernel_to_kernel_name st (map kernel_name ks) = Some name)
           \<and> ((\<exists>name. r = Inr name) \<longleftrightarrow>
                 subkernel_to_kernel_name self (map kernel_name ks) \<noteq> None
                 \<or> ''multi_kernel_'' @ kernel_name (hd ks) \<notin> used_names self)"
proof -
  from assms have ne: "ks \<noteq> []" by auto
  from src_code_long [OF assms] obtain src where src: "define_kernel_src_code ks = Inr src" ..
  show ?thesis
  proof (cases "subkernel_to_kernel_name self (map kernel_name ks)")
    case (Some name)
    from define_kernel_registered [OF Some, of hdr] Some show ?thesis by simp
  next
    case None
    show ?thesis
    proof (cases "''multi_kernel_'' @ kernel_name (hd ks) \<in> used_names self")
      case True
      from define_kernel_collision [OF None ne True, of hdr] None True show ?thesis by simp
    next
      case False
      from define_kernel_new [OF None ne False, of hdr] src False show ?thesis by simp
    qed
  qed
qed

lemmas example_kernel_defs = kernel_a_def kernel_b_def kernel_c_def kernel_outside_def

lemma list3_nth: "length xs = 3 \<Longrightarrow> xs = [xs ! 0, xs ! 1, xs ! 2]"
proof -
  assume "length xs = 3"
  then obtain a b c where "xs = [a, b, c]"
    by (auto simp: length_Suc_conv numeral_3_eq_3)
  then show ?thesis by simp
qed

lemma src_ab: "\<exists>src. define_kernel_src_code [kernel_a, kernel_b] = Inr src"
  by (rule src_code_long) simp

text \<open>
  Claim C2. For every registry, header and two lists of kernels with the same tuple of
  kernel names: after \<^verbatim>\<open>define_kernel\<close> on the first list, \<^verbatim>\<open>define_kernel\<close> on the second
  leaves the registry and the header as they are, and returns the name the first call
  returned. The first call, when it registers the tuple, splices one block (the opening,
  the glue source, the closing) into the header. The two outcomes are equal altogether
  unless the list has one kernel, where the first call registers the name and then
  raises IndexError while building the glue source, and the second returns the name.
\<close>

theorem define_kernel_idempotent:
  assumes "map kernel_name ks' = map kernel_name ks"
    and "define_kernel self hdr ks = (r1, self1, hdr1)"
    and "define_kernel self1 hdr1 ks' = (r2, self2, hdr2)"
  shows "self2 = self1 \<and> hdr2 = hdr1
         \<and> (\<forall>name. r1 = Inr name \<longrightarrow> r2 = Inr name)
         \<and> (length ks \<noteq> 1 \<longrightarrow> r2 = r1)
         \<and> (\<forall>name. r1 = Inr name \<and> subkernel_to_kernel_name self (map kernel_name ks) = None
               \<longrightarrow> (\<exists>src_code. hdr2 = hdr @ [header_open name (map kernel_name ks), src_code,
                                               header_close]))"
proof (cases "subkernel_to_kernel_name self (map kernel_name ks)")
  case (Some name)
  from define_kernel_registered [OF Some] assms(2)
  have 1: "r1 = Inr name" "self1 = self" "hdr1 = hdr" by simp_all
  from Some assms(1) have "subkernel_to_kernel_name self1 (map kernel_name ks') = Some name"
    by (simp add: 1)
  from define_kernel_registered [OF this] assms(3) 1 Some show ?thesis by simp
next
  case None
  show ?thesis
  proof (cases "ks = []")
    case True
    with assms(1) have ks': "ks' = []" by simp
    from define_kernel_empty [of self hdr] None True assms(2)
    have 1: "r1 = Inl IndexError" "self1 = self" "hdr1 = hdr" by simp_all
    from define_kernel_empty [of self hdr] None True assms(3) ks' 1
    have 2: "r2 = Inl IndexError" "self2 = self" "hdr2 = hdr" by simp_all
    from 1 2 show ?thesis by simp
  next
    case False
    with assms(1) have ne': "ks' \<noteq> []" by auto
    from assms(1) False ne' have hd: "kernel_name (hd ks') = kernel_name (hd ks)"
      by (cases ks; cases ks') simp_all
    show ?thesis
    proof (cases "''multi_kernel_'' @ kernel_name (hd ks) \<in> used_names self")
      case True
      from define_kernel_collision [OF None False True] assms(2)
      have 1: "r1 = Inl DuplicateDispatcherName" "self1 = self" "hdr1 = hdr" by simp_all
      from None True assms(1) hd
      have "subkernel_to_kernel_name self (map kernel_name ks') = None"
        "''multi_kernel_'' @ kernel_name (hd ks') \<in> used_names self" by simp_all
      from define_kernel_collision [OF this(1) ne' this(2), of hdr] assms(3) 1
      have 2: "r2 = Inl DuplicateDispatcherName" "self2 = self" "hdr2 = hdr" by simp_all
      from 1 2 show ?thesis by simp
    next
      case unused: False
      let ?name = "''multi_kernel_'' @ kernel_name (hd ks)"
      from define_kernel_new [OF None False unused, of hdr] assms(2)
      have reg: "subkernel_to_kernel_name self1 (map kernel_name ks) = Some ?name"
        and r1: "r1 = (case define_kernel_src_code ks of Inl e \<Rightarrow> Inl e | Inr s \<Rightarrow> Inr ?name)"
        and h1: "hdr1 = (case define_kernel_src_code ks of Inl e \<Rightarrow> hdr
                  | Inr s \<Rightarrow> hdr @ [header_open ?name (map kernel_name ks), s, header_close])"
        by auto
      from reg assms(1) have "subkernel_to_kernel_name self1 (map kernel_name ks') = Some ?name"
        by simp
      from define_kernel_registered [OF this] assms(3)
      have 2: "r2 = Inr ?name" "self2 = self1" "hdr2 = hdr1" by simp_all
      have "r2 = r1" if "length ks \<noteq> 1"
      proof -
        from False have "length ks \<noteq> 0" by simp
        with that have "2 \<le> length ks" by arith
        from src_code_long [OF this] r1 2 show ?thesis by auto
      qed
      with r1 h1 2 show ?thesis by (auto split: sum.splits)
    qed
  qed
qed

theorem define_kernel_idempotent_witness:
  "fst (define_kernel MultiKernelState_init [] [kernel_a, kernel_b]) = Inr ''multi_kernel_k1''
   \<and> length (snd (snd (define_kernel MultiKernelState_init [] [kernel_a, kernel_b]))) = 3
   \<and> define_kernel (fst (snd (define_kernel MultiKernelState_init [] [kernel_a, kernel_b])))
        (snd (snd (define_kernel MultiKernelState_init [] [kernel_a, kernel_b])))
        [kernel_a, kernel_b]
       = (Inr ''multi_kernel_k1'',
          fst (snd (define_kernel MultiKernelState_init [] [kernel_a, kernel_b])),
          snd (snd (define_kernel MultiKernelState_init [] [kernel_a, kernel_b])))"
proof -
  let ?X = "define_kernel MultiKernelState_init [] [kernel_a, kernel_b]"
  let ?Y = "define_kernel (fst (snd ?X)) (snd (snd ?X)) [kernel_a, kernel_b]"
  obtain src where src: "define_kernel_src_code [kernel_a, kernel_b] = Inr src"
    using src_ab ..
  have names: "map kernel_name [kernel_a, kernel_b] = [''k1'', ''k2'']"
    by (simp add: example_kernel_defs)
  have X: "?X = (Inr ''multi_kernel_k1'',
            \<lparr>subkernel_to_kernel_name = [[''k1'', ''k2''] \<mapsto> ''multi_kernel_k1''],
             used_names = {''multi_kernel_k1''}\<rparr>,
            [header_open ''multi_kernel_k1'' [''k1'', ''k2''], src, header_close])"
    unfolding define_kernel_def names by (simp add: MultiKernelState_init_def src Let_def)
  have h1: "map kernel_name [kernel_a, kernel_b] = map kernel_name [kernel_a, kernel_b]" ..
  have h2: "?X = (fst ?X, fst (snd ?X), snd (snd ?X))" by simp
  have h3: "?Y = (fst ?Y, fst (snd ?Y), snd (snd ?Y))" by simp
  from define_kernel_idempotent [OF h1 h2 h3]
  have "fst (snd ?Y) = fst (snd ?X)" "snd (snd ?Y) = snd (snd ?X)"
    "\<forall>name. fst ?X = Inr name \<longrightarrow> fst ?Y = Inr name" by blast+
  moreover have "fst ?X = Inr ''multi_kernel_k1''" "length (snd (snd ?X)) = 3" by (simp_all add: X)
  ultimately have "fst ?X = Inr ''multi_kernel_k1''" "length (snd (snd ?X)) = 3"
    "?Y = (Inr ''multi_kernel_k1'', fst (snd ?X), snd (snd ?X))"
    by (simp_all add: prod_eq_iff)
  then show ?thesis by blast
qed

text \<open>
  Claim C5, as stated, fails: the dispatcher name is made from the first kernel name
  only, so two different tuples that start with the same kernel collide.
\<close>

theorem dispatcher_name_collision:
  "map kernel_name [kernel_a, kernel_b] \<noteq> map kernel_name [kernel_a, kernel_c]
   \<and> fst (define_kernels MultiKernelState_init [] [[kernel_a, kernel_b], [kernel_a, kernel_c]])
       = [Inr ''multi_kernel_k1'', Inl DuplicateDispatcherName]"
proof -
  obtain src where src: "define_kernel_src_code [kernel_a, kernel_b] = Inr src"
    using src_ab ..
  have names: "map kernel_name [kernel_a, kernel_b] = [''k1'', ''k2'']"
    "map kernel_name [kernel_a, kernel_c] = [''k1'', ''k3'']"
    by (simp_all add: example_kernel_defs)
  have 1: "define_kernel MultiKernelState_init [] [kernel_a, kernel_b]
         = (Inr ''multi_kernel_k1'',
            \<lparr>subkernel_to_kernel_name = [[''k1'', ''k2''] \<mapsto> ''multi_kernel_k1''],
             used_names = {''multi_kernel_k1''}\<rparr>,
            [header_open ''multi_kernel_k1'' [''k1'', ''k2''], src, header_close])"
    unfolding define_kernel_def names by (simp add: MultiKernelState_init_def src Let_def)
  have 2: "define_kernel \<lparr>subkernel_to_kernel_name = [[''k1'', ''k2''] \<mapsto> ''multi_kernel_k1''],
             used_names = {''multi_kernel_k1''}\<rparr> hdr [kernel_a, kernel_c]
         = (Inl DuplicateDispatcherName,
            \<lparr>subkernel_to_kernel_name = [[''k1'', ''k2''] \<mapsto> ''multi_kernel_k1''],
             used_names = {''multi_kernel_k1''}\<rparr>, hdr)" for hdr
    unfolding define_kernel_def names by (simp add: Let_def)
  show ?thesis using names 1 2 by simp
qed

text \<open>
  Claim C5, amended. For every sequence of \<^verbatim>\<open>define_kernel\<close> calls on a fresh registry in
  which any two lists that start with the same kernel name have the same tuple of kernel
  names, the collision assertion never fires, and every call with at least two kernels
  returns \<^verbatim>\<open>multi_kernel_\<close> followed by the first kernel name.
\<close>

theorem dispatcher_names_no_collision:
  assumes "\<forall>ks \<in> set seq. \<forall>ks' \<in> set seq.
             ks \<noteq> [] \<and> ks' \<noteq> [] \<and> kernel_name (hd ks) = kernel_name (hd ks')
               \<longrightarrow> map kernel_name ks = map kernel_name ks'"
  shows "Inl DuplicateDispatcherName \<notin> set (fst (define_kernels MultiKernelState_init hdr seq))
         \<and> length (fst (define_kernels MultiKernelState_init hdr seq)) = length seq
         \<and> (\<forall>i < length seq. 2 \<le> length (seq ! i) \<longrightarrow>
               fst (define_kernels MultiKernelState_init hdr seq) ! i
                 = Inr (''multi_kernel_'' @ kernel_name (hd (seq ! i))))"
proof -
  let ?T = "map kernel_name ` set seq"
  have inj: "\<forall>a \<in> ?T. \<forall>b \<in> ?T. a \<noteq> [] \<and> b \<noteq> [] \<and> hd a = hd b \<longrightarrow> a = b"
  proof (intro ballI impI)
    fix a b assume a: "a \<in> ?T" and b: "b \<in> ?T" and h: "a \<noteq> [] \<and> b \<noteq> [] \<and> hd a = hd b"
    from a obtain ks where ks: "ks \<in> set seq" "a = map kernel_name ks" by auto
    from b obtain ks' where ks': "ks' \<in> set seq" "b = map kernel_name ks'" by auto
    from h ks ks' have "ks \<noteq> [] \<and> ks' \<noteq> [] \<and> kernel_name (hd ks) = kernel_name (hd ks')"
      by (auto simp: hd_map)
    with assms ks ks' show "a = b" by blast
  qed
  have "dom (subkernel_to_kernel_name MultiKernelState_init) \<subseteq> ?T"
    by (simp add: MultiKernelState_init_def)
  from define_kernels_no_collision [OF inj registry_consistent_init this subset_refl]
  show ?thesis .
qed

theorem dispatcher_names_no_collision_witness:
  "fst (define_kernels MultiKernelState_init []
          [[kernel_a, kernel_b], [kernel_b, kernel_c], [kernel_a, kernel_b]])
     = [Inr ''multi_kernel_k1'', Inr ''multi_kernel_k2'', Inr ''multi_kernel_k1'']
   \<and> Inl DuplicateDispatcherName
       \<notin> set (fst (define_kernels MultiKernelState_init []
                     [[kernel_a, kernel_b], [kernel_b, kernel_c], [kernel_a, kernel_b]]))"
proof -
  let ?seq = "[[kernel_a, kernel_b], [kernel_b, kernel_c], [kernel_a, kernel_b]]"
  let ?rs = "fst (define_kernels MultiKernelState_init [] ?seq)"
  have hyp: "\<forall>ks \<in> set ?seq. \<forall>ks' \<in> set ?seq.
             ks \<noteq> [] \<and> ks' \<noteq> [] \<and> kernel_name (hd ks) = kernel_name (hd ks')
               \<longrightarrow> map kernel_name ks = map kernel_name ks'"
    by (simp add: example_kernel_defs)
  note inst = dispatcher_names_no_collision [of ?seq "[]", OF hyp]
  from inst have no: "Inl DuplicateDispatcherName \<notin> set ?rs" by (rule conjunct1)
  from inst have len: "length ?rs = 3" by simp
  from inst have nth: "\<forall>i < 3. 2 \<le> length (?seq ! i) \<longrightarrow>
               ?rs ! i = Inr (''multi_kernel_'' @ kernel_name (hd (?seq ! i)))" by simp
  have "?rs ! 0 = Inr ''multi_kernel_k1''" "?rs ! 1 = Inr ''multi_kernel_k2''"
    "?rs ! 2 = Inr ''multi_kernel_k1''"
    using nth by (simp_all add: example_kernel_defs)
  with list3_nth [OF len]
  have "?rs = [Inr ''multi_kernel_k1'', Inr ''multi_kernel_k2'', Inr ''multi_kernel_k1'']"
    by (simp only:)
  with no show ?thesis by (simp only: simp_thms)
qed

text \<open>
  Claim C8. With fewer than two kernels both constructors fail at their size assertion,
  \<^verbatim>\<open>MultiKernel\<close> leaving the wrapper untouched. With two or more, the size assertion
  passes: \<^verbatim>\<open>MultiKernelCall\<close> is constructed undecided from what \<^verbatim>\<open>PyCodeCache.load\<close> returns;
  \<^verbatim>\<open>MultiKernel\<close> goes on to \<^verbatim>\<open>define_kernel\<close>, whose outcome is the constructor's: the name
  it returns is registered for the tuple and stored in the object, it never raises
  IndexError, and it returns a name unless the tuple is new and its name is in use (the
  collision assertion). On a fresh registry the constructor always returns the object
  with its name.
\<close>

theorem group_size_precondition:
  fixes load :: "string \<Rightarrow> string + 'r" and cks :: "'k list"
  shows "(length ks < 2 \<longrightarrow> MultiKernel_init wrapper ks = (Inl InvalidGroupSize, wrapper))
   \<and> (length cks < 2 \<longrightarrow> MultiKernelCall_init load cks src_code = Inl InvalidGroupSize)
   \<and> (2 \<le> length cks \<longrightarrow>
        MultiKernelCall_init load cks src_code
          = (case load src_code of
               Inl s \<Rightarrow> Inl (Raised s)
             | Inr run \<Rightarrow> Inr \<lparr>kernels_of_call = cks, picked_kernel = None, run_of_call = run\<rparr>))
   \<and> (2 \<le> length ks \<longrightarrow>
        (\<exists>r st hdr.
           define_kernel (multi_kernel_state wrapper) (header wrapper) ks = (r, st, hdr)
           \<and> MultiKernel_init wrapper ks
               = (case r of Inl e \<Rightarrow> Inl e
                  | Inr name \<Rightarrow> Inr \<lparr>kernels = ks, multi_kernel_name = name\<rparr>,
                  wrapper\<lparr>multi_kernel_state := st, header := hdr\<rparr>)
           \<and> r \<noteq> Inl InvalidGroupSize \<and> r \<noteq> Inl IndexError
           \<and> (\<forall>name. r = Inr name
                 \<longrightarrow> subkernel_to_kernel_name st (map kernel_name ks) = Some name)
           \<and> ((\<exists>name. r = Inr name) \<longleftrightarrow>
                 subkernel_to_kernel_name (multi_kernel_state wrapper) (map kernel_name ks) \<noteq> None
                 \<or> ''multi_kernel_'' @ kernel_name (hd ks)
                      \<notin> used_names (multi_kernel_state wrapper))))
   \<and> (2 \<le> length ks \<longrightarrow>
        (\<exists>hdr. MultiKernel_init \<lparr>multi_kernel_state = MultiKernelState_init, header = []\<rparr> ks
           = (Inr \<lparr>kernels = ks,
                   multi_kernel_name = ''multi_kernel_'' @ kernel_name (hd ks)\<rparr>,
              \<lparr>multi_kernel_state =
                 \<lparr>subkernel_to_kernel_name =
                    [map kernel_name ks \<mapsto> ''multi_kernel_'' @ kernel_name (hd ks)],
                  used_names = {''multi_kernel_'' @ kernel_name (hd ks)}\<rparr>,
               header = hdr\<rparr>)))"
proof (intro conjI impI)
  assume "length ks < 2"
  then show "MultiKernel_init wrapper ks = (Inl InvalidGroupSize, wrapper)"
    unfolding MultiKernel_init_def by simp
next
  assume "length cks < 2"
  then show "MultiKernelCall_init load cks src_code = Inl InvalidGroupSize"
    unfolding MultiKernelCall_init_def by simp
next
  assume "2 \<le> length cks"
  then show "MultiKernelCall_init load cks src_code
          = (case load src_code of
               Inl s \<Rightarrow> Inl (Raised s)
             | Inr run \<Rightarrow> Inr \<lparr>kernels_of_call = cks, picked_kernel = None, run_of_call = run\<rparr>)"
    unfolding MultiKernelCall_init_def by simp
next
  assume len: "2 \<le> length ks"
  from define_kernel_outcome [OF len, of "multi_kernel_state wrapper" "header wrapper"]
  obtain r st hdr where
    run: "define_kernel (multi_kernel_state wrapper) (header wrapper) ks = (r, st, hdr)"
    and props: "r \<noteq> Inl InvalidGroupSize" "r \<noteq> Inl IndexError"
      "\<forall>name. r = Inr name \<longrightarrow> subkernel_to_kernel_name st (map kernel_name ks) = Some name"
      "(\<exists>name. r = Inr name) \<longleftrightarrow>
                 subkernel_to_kernel_name (multi_kernel_state wrapper) (map kernel_name ks) \<noteq> None
                 \<or> ''multi_kernel_'' @ kernel_name (hd ks)
                      \<notin> used_names (multi_kernel_state wrapper)"
    by blast
  have "MultiKernel_init wrapper ks
               = (case r of Inl e \<Rightarrow> Inl e
                  | Inr name \<Rightarrow> Inr \<lparr>kernels = ks, multi_kernel_name = name\<rparr>,
                  wrapper\<lparr>multi_kernel_state := st, header := hdr\<rparr>)"
    unfolding MultiKernel_init_def using len run by (simp split: sum.splits)
  with run props show "\<exists>r st hdr.
           define_kernel (multi_kernel_state wrapper) (header wrapper) ks = (r, st, hdr)
           \<and> MultiKernel_init wrapper ks
               = (case r of Inl e \<Rightarrow> Inl e
                  | Inr name \<Rightarrow> Inr \<lparr>kernels = ks, multi_kernel_name = name\<rparr>,
                  wrapper\<lparr>multi_kernel_state := st, header := hdr\<rparr>)
           \<and> r \<noteq> Inl InvalidGroupSize \<and> r \<noteq> Inl IndexError
           \<and> (\<forall>name. r = Inr name
                 \<longrightarrow> subkernel_to_kernel_name st (map kernel_name ks) = Some name)
           \<and> ((\<exists>name. r = Inr name) \<longleftrightarrow>
                 subkernel_to_kernel_name (multi_kernel_state wrapper) (map kernel_name ks) \<noteq> None
                 \<or> ''multi_kernel_'' @ kernel_name (hd ks)
                      \<notin> used_names (multi_kernel_state wrapper))"
    by blast
next
  assume len: "2 \<le> length ks"
  then have ne: "ks \<noteq> []" by auto
  from src_code_long [OF len] obtain src where src: "define_kernel_src_code ks = Inr src" ..
  have "define_kernel MultiKernelState_init [] ks
          = (Inr (''multi_kernel_'' @ kernel_name (hd ks)),
             \<lparr>subkernel_to_kernel_name =
                    [map kernel_name ks \<mapsto> ''multi_kernel_'' @ kernel_name (hd ks)],
                  used_names = {''multi_kernel_'' @ kernel_name (hd ks)}\<rparr>,
             [header_open (''multi_kernel_'' @ kernel_name (hd ks)) (map kernel_name ks),
              src, header_close])"
    using define_kernel_new [of MultiKernelState_init ks "[]"] ne src
    by (simp add: MultiKernelState_init_def)
  then show "\<exists>hdr. MultiKernel_init \<lparr>multi_kernel_state = MultiKernelState_init, header = []\<rparr> ks
           = (Inr \<lparr>kernels = ks,
                   multi_kernel_name = ''multi_kernel_'' @ kernel_name (hd ks)\<rparr>,
              \<lparr>multi_kernel_state =
                 \<lparr>subkernel_to_kernel_name =
                    [map kernel_name ks \<mapsto> ''multi_kernel_'' @ kernel_name (hd ks)],
                  used_names = {''multi_kernel_'' @ kernel_name (hd ks)}\<rparr>,
               header = hdr\<rparr>)"
    unfolding MultiKernel_init_def using len by simp
qed

theorem group_size_precondition_witness:
  "length [kernel_a] < 2
   \<and> MultiKernel_init \<lparr>multi_kernel_state = MultiKernelState_init, header = []\<rparr> [kernel_a]
       = (Inl InvalidGroupSize, \<lparr>multi_kernel_state = MultiKernelState_init, header = []\<rparr>)
   \<and> MultiKernelCall_init (\<lambda>src. Inr ()) [''k1''] ''src'' = Inl InvalidGroupSize
   \<and> 2 \<le> length [kernel_a, kernel_b]
   \<and> MultiKernelCall_init (\<lambda>src. Inr ()) [''k1'', ''k2''] ''src''
       = Inr \<lparr>kernels_of_call = [''k1'', ''k2''], picked_kernel = None, run_of_call = ()\<rparr>
   \<and> fst (MultiKernel_init \<lparr>multi_kernel_state = MultiKernelState_init, header = []\<rparr>
             [kernel_a, kernel_b])
       = Inr \<lparr>kernels = [kernel_a, kernel_b], multi_kernel_name = ''multi_kernel_k1''\<rparr>"
proof -
  let ?w = "\<lparr>multi_kernel_state = MultiKernelState_init, header = []\<rparr>"
  note small = group_size_precondition [of "[kernel_a]" ?w "[''k1'']" "\<lambda>src. Inr ()" "''src''"]
  note big = group_size_precondition [of "[kernel_a, kernel_b]" ?w "[''k1'', ''k2'']"
      "\<lambda>src. Inr ()" "''src''"]
  have s: "length [kernel_a] < 2" "length [''k1''] < 2" by simp_all
  have b: "2 \<le> length [kernel_a, kernel_b]" "2 \<le> length [''k1'', ''k2'']" by simp_all
  from small s have 1: "MultiKernel_init ?w [kernel_a] = (Inl InvalidGroupSize, ?w)"
    "MultiKernelCall_init (\<lambda>src. Inr ()) [''k1''] ''src'' = Inl InvalidGroupSize"
    by blast+
  from big b have 2: "MultiKernelCall_init (\<lambda>src. Inr ()) [''k1'', ''k2''] ''src''
       = Inr \<lparr>kernels_of_call = [''k1'', ''k2''], picked_kernel = None, run_of_call = ()\<rparr>"
    by simp
  from big b obtain hdr where "MultiKernel_init ?w [kernel_a, kernel_b]
           = (Inr \<lparr>kernels = [kernel_a, kernel_b],
                   multi_kernel_name = ''multi_kernel_'' @ kernel_name (hd [kernel_a, kernel_b])\<rparr>,
              \<lparr>multi_kernel_state =
                 \<lparr>subkernel_to_kernel_name =
                    [map kernel_name [kernel_a, kernel_b]
                       \<mapsto> ''multi_kernel_'' @ kernel_name (hd [kernel_a, kernel_b])],
                  used_names = {''multi_kernel_'' @ kernel_name (hd [kernel_a, kernel_b])}\<rparr>,
               header = hdr\<rparr>)"
    by blast
  then have 3: "fst (MultiKernel_init ?w [kernel_a, kernel_b])
       = Inr \<lparr>kernels = [kernel_a, kernel_b], multi_kernel_name = ''multi_kernel_k1''\<rparr>"
    by (simp add: kernel_a_def)
  from s b 1 2 3 show ?thesis by blast
qed

subsection \<open>The generated glue\<close>

lemma str_nat_0: "str_nat 0 = ''0''"
  by (simp add: str_nat.simps)

lemma str_nat_1: "str_nat 1 = ''1''" "str_nat (Suc 0) = ''1''"
  by (simp_all add: str_nat.simps)

lemma glue_closures_two: "concat (map (\<lambda>(i, args, closure_numels). closure_source i args closure_numels)
                 [(0, args0, numels0), (1, args1, numels1)]) = 
          ''    def call0():\<newline>''
          @ ''        multi_kernel_call.kernels[0].run('' @ join '', '' args0
          @ '', '' @ join '', '' numels0 @ '', grid=grid, stream=stream)\<newline>''
          @ ''    def call1():\<newline>''
          @ ''        multi_kernel_call.kernels[1].run('' @ join '', '' args1
          @ '', '' @ join '', '' numels1 @ '', grid=grid, stream=stream)\<newline>''"
  by (simp add: closure_source_def str_nat_0 str_nat_1)

lemma glue_names_two: "join '', '' (map (\<lambda>i. ''call'' @ str_nat i) [0, 1]) = ''call0, call1''"
  by (simp add: str_nat_0 str_nat_1)

lemma zip_two: "zip [0 ..< length [(args0, numels0), (args1, numels1)]] [(args0, numels0), (args1, numels1)]
           = [(0, args0, numels0), (1, args1, numels1)]"
    by (simp add: upt_conv_Cons)
lemma upt_two: "[0 ..< length [(args0, numels0), (args1, numels1)]] = [0, 1]"
    by (simp add: upt_conv_Cons)

lemma glue_source_two: "glue_source all_args numels [(args0, numels0), (args1, numels1)] =
          ''\<newline>def run(multi_kernel_call, '' @ join '', '' all_args
          @ '', '' @ join '', '' numels @ '', grid, stream):\<newline>''
          @ concat (map (\<lambda>(i, args, closure_numels). closure_source i args closure_numels)
                 [(0, args0, numels0), (1, args1, numels1)])
          @ ''    multi_kernel_call.run_with_argless_kernels([''
     @ join '', '' (map (\<lambda>i. ''call'' @ str_nat i) [0, 1])
     @ ''])\<newline>''
     @ ''        ''"
  unfolding glue_source_def unfolding zip_two unfolding upt_two ..

lemma glue_two: "glue_source all_args numels [(args0, numels0), (args1, numels1)] =
          ''\<newline>def run(multi_kernel_call, '' @ join '', '' all_args
          @ '', '' @ join '', '' numels @ '', grid, stream):\<newline>''
          @ ''    def call0():\<newline>''
          @ ''        multi_kernel_call.kernels[0].run('' @ join '', '' args0
          @ '', '' @ join '', '' numels0 @ '', grid=grid, stream=stream)\<newline>''
          @ ''    def call1():\<newline>''
          @ ''        multi_kernel_call.kernels[1].run('' @ join '', '' args1
          @ '', '' @ join '', '' numels1 @ '', grid=grid, stream=stream)\<newline>''
          @ ''    multi_kernel_call.run_with_argless_kernels([call0, call1])\<newline>''
          @ ''        ''"
  unfolding glue_source_two glue_closures_two glue_names_two by simp

text \<open>
  Claim C4, as stated, fails: the glue source has the two closures \<^verbatim>\<open>call0\<close> and \<^verbatim>\<open>call1\<close>
  whatever the size of the group. A group of three kernels is accepted, and its third
  kernel gets no closure.
\<close>

theorem glue_third_variant_dropped:
  "length [kernel_a, kernel_b, kernel_c] = 3
   \<and> fst (define_kernel MultiKernelState_init [] [kernel_a, kernel_b, kernel_c])
       = Inr ''multi_kernel_k1''
   \<and> define_kernel_src_code [kernel_a, kernel_b, kernel_c]
       \<noteq> Inr (glue_per_variant [kernel_a, kernel_b, kernel_c])
   \<and> count_occurrences ''def call''
         (projr (define_kernel_src_code [kernel_a, kernel_b, kernel_c])) = 2
   \<and> count_occurrences ''def call'' (glue_per_variant [kernel_a, kernel_b, kernel_c]) = 3"
  by code_simp

text \<open>
  Claim C4, amended. For every group of at least two kernels, the glue source defines
  exactly the two closures \<^verbatim>\<open>call0\<close> and \<^verbatim>\<open>call1\<close>, for the first two kernels of the group,
  each invoking its own kernel with that kernel's own arguments and that kernel's own
  size names, the grid and the stream, and passes the list of the two to
  \<^verbatim>\<open>run_with_argless_kernels\<close>; this is the source \<^verbatim>\<open>define_kernel\<close> splices into the header
  when it registers the group. For a group of exactly two kernels with the same size
  names, that is one closure per kernel with the shared iteration sizes.
\<close>

theorem glue_two_closures:
  assumes "2 \<le> length ks"
  shows "define_kernel_src_code ks
           = Inr (glue_source (get_all_kernel_argdefs ks) (get_numel_argdefs (ks ! 0))
                    [(get_kernel_argdefs (ks ! 0), get_numel_argdefs (ks ! 0)),
                     (get_kernel_argdefs (ks ! 1), get_numel_argdefs (ks ! 1))])
         \<and> (length ks = 2
              \<and> get_numel_argdefs (ks ! 1) = get_numel_argdefs (ks ! 0)
              \<longrightarrow> define_kernel_src_code ks = Inr (glue_per_variant ks))
         \<and> (\<forall>self hdr name self' hdr'.
               subkernel_to_kernel_name self (map kernel_name ks) = None
               \<and> define_kernel self hdr ks = (Inr name, self', hdr')
               \<longrightarrow> hdr' = hdr @ [header_open name (map kernel_name ks),
                       glue_source (get_all_kernel_argdefs ks)
                         (get_numel_argdefs (ks ! 0))
                         [(get_kernel_argdefs (ks ! 0), get_numel_argdefs (ks ! 0)),
                          (get_kernel_argdefs (ks ! 1), get_numel_argdefs (ks ! 1))],
                       header_close])"
proof -
  from assms obtain k0 k1 rest where ks: "ks = k0 # k1 # rest"
    by (cases ks; cases "tl ks") auto
  have src: "define_kernel_src_code ks
           = Inr (glue_source (get_all_kernel_argdefs ks) (get_numel_argdefs (ks ! 0))
                    [(get_kernel_argdefs (ks ! 0), get_numel_argdefs (ks ! 0)),
                     (get_kernel_argdefs (ks ! 1), get_numel_argdefs (ks ! 1))])"
    unfolding glue_two unfolding define_kernel_src_code_def ks by simp
  have per: "define_kernel_src_code ks = Inr (glue_per_variant ks)"
    if "length ks = 2" "get_numel_argdefs (ks ! 1) = get_numel_argdefs (ks ! 0)"
  proof -
    from that(1) ks have r: "rest = []" by simp
    show ?thesis unfolding src unfolding glue_per_variant_def using that(2) by (simp add: ks r)
  qed
  have hdr: "hdr' = hdr @ [header_open name (map kernel_name ks),
                       glue_source (get_all_kernel_argdefs ks)
                         (get_numel_argdefs (ks ! 0))
                         [(get_kernel_argdefs (ks ! 0), get_numel_argdefs (ks ! 0)),
                          (get_kernel_argdefs (ks ! 1), get_numel_argdefs (ks ! 1))],
                       header_close]"
    if "subkernel_to_kernel_name self (map kernel_name ks) = None"
      "define_kernel self hdr ks = (Inr name, self', hdr')"
    for self hdr name self' hdr'
  proof -
    from ks have ne: "ks \<noteq> []" by simp
    show ?thesis
    proof (cases "''multi_kernel_'' @ kernel_name (hd ks) \<in> used_names self")
      case True
      from define_kernel_collision [OF that(1) ne True, of hdr] that(2) show ?thesis by simp
    next
      case False
      from define_kernel_new [OF that(1) ne False, of hdr] that(2) src show ?thesis by simp
    qed
  qed
  from src per hdr show ?thesis by blast
qed

theorem glue_two_closures_witness:
  "2 \<le> length [kernel_a, kernel_b]
   \<and> get_numel_argdefs ([kernel_a, kernel_b] ! 1) = get_numel_argdefs ([kernel_a, kernel_b] ! 0)
   \<and> define_kernel_src_code [kernel_a, kernel_b] = Inr (glue_per_variant [kernel_a, kernel_b])
   \<and> count_occurrences ''def call'' (glue_per_variant [kernel_a, kernel_b]) = 2"
proof -
  have h: "2 \<le> length [kernel_a, kernel_b]" by simp
  have n: "get_numel_argdefs ([kernel_a, kernel_b] ! 1) = get_numel_argdefs ([kernel_a, kernel_b] ! 0)"
    by code_simp
  have l: "length [kernel_a, kernel_b] = 2" by simp
  from glue_two_closures [of "[kernel_a, kernel_b]", OF h]
  have "length [kernel_a, kernel_b] = 2
          \<and> get_numel_argdefs ([kernel_a, kernel_b] ! 1) = get_numel_argdefs ([kernel_a, kernel_b] ! 0)
        \<longrightarrow> define_kernel_src_code [kernel_a, kernel_b] = Inr (glue_per_variant [kernel_a, kernel_b])"
    by (elim conjE)
  with l n have src: "define_kernel_src_code [kernel_a, kernel_b]
      = Inr (glue_per_variant [kernel_a, kernel_b])" by blast
  have c: "count_occurrences ''def call'' (glue_per_variant [kernel_a, kernel_b]) = 2"
    by code_simp
  from h n src c show ?thesis by blast
qed

end
